theory Spec2Isabelle
  imports Complex_Main "HOL-Library.AList" "HOL-Library.Sublist"
begin

section \<open>Numbers\<close>

text \<open>
  The components compute with JavaScript numbers, IEEE 754 binary64. A number is
  modelled as the real it denotes, and every arithmetic operation of the source is the
  exact operation followed by \<open>fl\<close>, rounding to the nearest value with a 53-bit
  significand, a tie going to the even significand. The exponent is unbounded: the model
  has no overflow to an infinity, no subnormal numbers and no NaN. A decimal such as
  \<open>0.1\<close> that the host writes is the number \<open>fl (1 / 10)\<close>.

  \<open>expo2 x\<close> is the exponent \<open>e\<close> of a positive \<open>x\<close>, with \<open>2 ^ e \<le> x < 2 ^ (e + 1)\<close>, found
  by halving or doubling.
\<close>

function expo2 :: "real \<Rightarrow> int" where
  "expo2 x = (if x \<le> 0 then 0
              else if x < 1 then expo2 (2 * x) - 1
              else if 2 \<le> x then expo2 (x / 2) + 1
              else 0)"
  by pat_completeness auto
termination
proof (relation "measure (\<lambda>x. if x < 1 then nat \<lceil>2 / x\<rceil> else nat \<lfloor>x\<rfloor>)")
  show "wf (measure (\<lambda>x::real. if x < 1 then nat \<lceil>2 / x\<rceil> else nat \<lfloor>x\<rfloor>))" by simp
next
  fix x :: real
  assume x: "\<not> x \<le> 0" "x < 1"
  have "(if 2 * x < 1 then nat \<lceil>2 / (2 * x)\<rceil> else nat \<lfloor>2 * x\<rfloor>) < nat \<lceil>2 / x\<rceil>"
  proof (cases "2 * x < 1")
    case True
    have "1 \<le> 1 / x" using x by simp
    then have "1 / x + 1 \<le> 2 / x" by (simp add: field_simps)
    moreover have "of_int \<lceil>1 / x\<rceil> < 1 / x + 1" by linarith
    ultimately have "of_int \<lceil>1 / x\<rceil> < 2 / x" by linarith
    then have "\<lceil>1 / x\<rceil> < \<lceil>2 / x\<rceil>" by (simp add: less_ceiling_iff)
    moreover have "0 < \<lceil>2 / x\<rceil>" using x by (simp add: less_ceiling_iff)
    ultimately have "nat \<lceil>1 / x\<rceil> < nat \<lceil>2 / x\<rceil>" by linarith
    moreover have "2 / (2 * x) = 1 / x" by simp
    ultimately show ?thesis using True by (simp only: if_True)
  next
    case False
    then have "2 * x < 2" "1 \<le> 2 * x" using x by simp_all
    then have f: "\<lfloor>2 * x\<rfloor> = 1" by (simp add: floor_eq_iff)
    have "2 < 2 / x" using x by (simp add: field_simps)
    then have "2 < \<lceil>2 / x\<rceil>" by (simp add: less_ceiling_iff)
    then have c: "1 < nat \<lceil>2 / x\<rceil>" by linarith
    from f have "nat \<lfloor>2 * x\<rfloor> = 1" by simp
    with c have "nat \<lfloor>2 * x\<rfloor> < nat \<lceil>2 / x\<rceil>" by linarith
    with False show ?thesis by (simp only: if_False)
  qed
  with x show "(2 * x, x) \<in> measure (\<lambda>x. if x < 1 then nat \<lceil>2 / x\<rceil> else nat \<lfloor>x\<rfloor>)"
    by simp
next
  fix x :: real
  assume x: "\<not> x \<le> 0" "\<not> x < 1" "2 \<le> x"
  have "of_int \<lfloor>x / 2\<rfloor> + 1 \<le> x" using x by linarith
  then have "\<lfloor>x / 2\<rfloor> + 1 \<le> \<lfloor>x\<rfloor>" by (simp add: le_floor_iff)
  moreover have "0 \<le> \<lfloor>x / 2\<rfloor>" using x by simp
  ultimately have "nat \<lfloor>x / 2\<rfloor> < nat \<lfloor>x\<rfloor>" by linarith
  with x show "(x / 2, x) \<in> measure (\<lambda>x. if x < 1 then nat \<lceil>2 / x\<rceil> else nat \<lfloor>x\<rfloor>)"
    by simp
qed

declare expo2.simps [simp del]

definition roundEven :: "real \<Rightarrow> int" where
  \<comment> \<open>The nearest integer, a tie going to the even one.\<close>
  "roundEven y =
     (let f = \<lfloor>y\<rfloor>; d = y - of_int f
      in if d < 1 / 2 then f else if 1 / 2 < d then f + 1 else if even f then f else f + 1)"

definition fl :: "real \<Rightarrow> real" where
  \<comment> \<open>Rounding to binary64: the nearest multiple of \<open>2 ^ (e - 52)\<close>, for the exponent \<open>e\<close>
      of the absolute value.\<close>
  "fl x = (if x = 0 then 0
           else let u = 2 powi (expo2 \<bar>x\<bar> - 52) in u * of_int (roundEven (x / u)))"

definition Math_round :: "real \<Rightarrow> real" where
  \<comment> \<open>\<open>Math.round\<close>: the nearest integer, a tie going up. On a binary64 number the
      result is exact.\<close>
  "Math_round x = of_int \<lfloor>x + 1 / 2\<rfloor>"

definition sort_numericSort :: "real list \<Rightarrow> real list" where
  \<comment> \<open>\<open>xs.sort(numericSort)\<close> with the comparator \<open>a - b\<close>: ascending and stable.\<close>
  "sort_numericSort xs = sort xs"

fun arraysDiffer :: "real list \<Rightarrow> real list \<Rightarrow> bool" where
  "arraysDiffer [] [] = False"
| "arraysDiffer (x # xs) (y # ys) = (x \<noteq> y \<or> arraysDiffer xs ys)"
| "arraysDiffer _ _ = True"

definition is_multiple :: "real \<Rightarrow> real \<Rightarrow> bool" where
  \<comment> \<open>\<open>d\<close> is an integer multiple of \<open>st\<close>, in exact arithmetic, decided by one
      division.\<close>
  "is_multiple d st = (if st = 0 then d = 0 else of_int \<lfloor>d / st\<rfloor> * st = d)"

section \<open>Multi-range: the component state\<close>

record track =
  tr_display :: string
  tr_left :: real
  tr_width :: real

record rect =
  rect_left :: real
  rect_width :: real

record handle =
  sliderId :: nat
  pointerId :: "nat option"
  clientWidth :: real
  grabbed :: bool
  aria_valuenow :: real
  style_left :: "real option"

record pointer_event =
  ev_pointerId :: nat
  clientX :: real

datatype effect =
  Emit string
| StopPropagation
| PreventDefault
| SetPointerCapture nat
| ReleasePointerCapture nat

text \<open>
  \<open>sliderValues\<close> is the \<open>Map\<close> from slider id to value, kept as an association list in
  insertion order (\<open>set\<close> on a present key keeps its place, as \<open>AList.update\<close> does).
  \<open>activeTrack\<close> is \<open>None\<close> while the element is not rendered. \<open>effects\<close> records what
  the handlers emit and what they do to the event, oldest first.
\<close>

record multi_range =
  mr_disabled :: bool
  mr_min :: real
  mr_max :: real
  mr_step :: real
  mr_value :: "real list"
  sliderValues :: "(nat \<times> real) list"
  nextId :: nat
  baseDiv :: rect
  activeTrack :: "track option"
  effects :: "effect list"

definition emit :: "string \<Rightarrow> multi_range \<Rightarrow> multi_range" where
  "emit name this = this\<lparr>effects := effects this @ [Emit name]\<rparr>"

definition has :: "(nat \<times> real) list \<Rightarrow> nat \<Rightarrow> bool" where
  "has m k = (map_of m k \<noteq> None)"

section \<open>Multi-range: render and willUpdate\<close>

definition render :: "multi_range \<Rightarrow> multi_range" where
  \<comment> \<open>Clears the map and mints one fresh id per slot of the value array; the handle
      elements themselves are the render layer's.\<close>
  "render this =
     this\<lparr>sliderValues := zip [nextId this ..< nextId this + length (mr_value this)] (mr_value this),
          nextId := nextId this + length (mr_value this)\<rparr>"

definition correctRange :: "multi_range \<Rightarrow> multi_range" where
  \<comment> \<open>The three corrections at the head of \<open>willUpdate\<close>, in the source's order.\<close>
  "correctRange this =
     (let this1 = (if mr_min this > mr_max this
                   then this\<lparr>mr_min := mr_max this, mr_max := mr_min this\<rparr> else this);
          this2 = (if mr_step this1 > fl (mr_max this1 - mr_min this1)
                   then this1\<lparr>mr_step := fl (mr_max this1 - mr_min this1)\<rparr> else this1);
          this3 = (if mr_step this2 \<le> 0 then this2\<lparr>mr_step := 1\<rparr> else this2)
      in this3)"

definition adjust :: "multi_range \<Rightarrow> real \<Rightarrow> real" where
  \<comment> \<open>The arrow function mapped over the value array in \<open>willUpdate\<close>.\<close>
  "adjust this v =
     (if v \<le> mr_min this then mr_min this
      else if v \<ge> mr_max this then mr_max this
      else let v1 = fl (mr_min this
                        + fl (mr_step this * Math_round (fl (fl (v - mr_min this) / mr_step this))))
           in if v1 > mr_max this then mr_max this else v1)"

definition willUpdate :: "bool \<Rightarrow> multi_range \<Rightarrow> multi_range" where
  \<comment> \<open>The flag is \<open>changedProperties.has('value')\<close>.\<close>
  "willUpdate changedValue this =
     (let this1 = correctRange this;
          adjustedValue = sort_numericSort (map (adjust this1) (mr_value this1))
      in if arraysDiffer (mr_value this1) adjustedValue
         then (let this2 = this1\<lparr>mr_value := adjustedValue\<rparr>
               in if \<not> changedValue then emit ''sl-change'' this2 else this2)
         else this1)"

section \<open>Multi-range: pointer and keyboard handlers\<close>

definition moveHandle :: "multi_range \<Rightarrow> handle \<Rightarrow> real \<Rightarrow> handle" where
  \<comment> \<open>\<open>style_left\<close> holds \<open>pos\<close> of the \<open>calc\<close> expression; \<open>None\<close> when \<open>max = min\<close>
      and the quotient is not a finite number. The formatter's text is the host's.\<close>
  "moveHandle this h v =
     h\<lparr>aria_valuenow := v,
       style_left := (if fl (mr_max this - mr_min this) = 0 then None
                      else Some (fl (fl (v - mr_min this) / fl (mr_max this - mr_min this))))\<rparr>"

definition getNormalizedValueFromClientX :: "multi_range \<Rightarrow> handle \<Rightarrow> real \<Rightarrow> real" where
  "getNormalizedValueFromClientX this h x =
     (let bounds = baseDiv this;
          size = fl (rect_width bounds - clientWidth h)
      in if size \<le> 0 then 0
         else let x1 = fl (x - fl (rect_left bounds + fl (clientWidth h / 2)))
              in if x1 \<le> 0 then 0 else if x1 \<ge> size then 1 else fl (x1 / size))"

definition updateActiveTrack :: "multi_range \<Rightarrow> multi_range" where
  "updateActiveTrack this =
     (case activeTrack this of
        None \<Rightarrow> this
      | Some t \<Rightarrow>
          if mr_min this = mr_max this \<or> length (mr_value this) < 2
          then this\<lparr>activeTrack := Some (t\<lparr>tr_display := ''none'', tr_left := 0, tr_width := 0\<rparr>)\<rparr>
          else let start = fl (fl (100 * fl (hd (mr_value this) - mr_min this))
                                 / fl (mr_max this - mr_min this));
                   span = fl (fl (100 * fl (last (mr_value this) - hd (mr_value this)))
                                / fl (mr_max this - mr_min this))
               in this\<lparr>activeTrack :=
                         Some (t\<lparr>tr_display := ''inline-block'', tr_left := start, tr_width := span\<rparr>)\<rparr>)"

definition onClickHandle :: "pointer_event \<Rightarrow> handle \<Rightarrow> multi_range \<Rightarrow> handle \<times> multi_range" where
  "onClickHandle event h this =
     (let this1 = (case pointerId h of
                     Some p \<Rightarrow> this\<lparr>effects := effects this @ [ReleasePointerCapture p]\<rparr>
                   | None \<Rightarrow> this)
      in if mr_disabled this1 then (h, this1)
         else (h\<lparr>pointerId := Some (ev_pointerId event), grabbed := True\<rparr>,
               this1\<lparr>effects := effects this1 @ [SetPointerCapture (ev_pointerId event)]\<rparr>))"

text \<open>
  In \<open>onDragHandle\<close> the quotient \<open>pos / unit\<close> has a zero denominator only when
  \<open>max = min\<close> or \<open>step = 0\<close>. After \<open>willUpdate\<close> the step is positive, and for
  \<open>max = min\<close> the source computes \<open>unit = +Infinity\<close> and \<open>pos / unit = 0\<close>, which is
  the value HOL's division by zero gives here as well. The other divisions of the
  component are guarded, or have the positive step as their denominator.
\<close>

definition onDragHandle :: "pointer_event \<Rightarrow> handle \<Rightarrow> multi_range \<Rightarrow> handle \<times> multi_range" where
  "onDragHandle event h this =
     (if mr_disabled this then (h, this)
      else if \<not> has (sliderValues this) (sliderId h) then (h, this)
      else if pointerId h \<noteq> Some (ev_pointerId event) then (h, this)
      else
        let pos = getNormalizedValueFromClientX this h (clientX event);
            unit = fl (mr_step this / fl (mr_max this - mr_min this));
            v = fl (mr_min this + fl (mr_step this * Math_round (fl (pos / unit))));
            this1 = this\<lparr>sliderValues := AList.update (sliderId h) v (sliderValues this)\<rparr>;
            h1 = moveHandle this1 h v;
            prevValue = mr_value this1;
            this2 = this1\<lparr>mr_value := sort_numericSort (map snd (sliderValues this1))\<rparr>;
            this3 = updateActiveTrack this2
        in (h1, if arraysDiffer prevValue (mr_value this3) then emit ''sl-input'' this3 else this3))"



definition onReleaseHandle :: "pointer_event \<Rightarrow> handle \<Rightarrow> multi_range \<Rightarrow> handle \<times> multi_range" where
  "onReleaseHandle event h this =
     (if pointerId h \<noteq> Some (ev_pointerId event) then (h, this)
      else (h\<lparr>grabbed := False, pointerId := None\<rparr>,
            emit ''sl-change''
              (this\<lparr>effects := effects this @ [ReleasePointerCapture (ev_pointerId event)]\<rparr>)))"

section \<open>The drag utility\<close>

text \<open>
  \<open>drag\<close> registers two listeners on the document and, when an initial event is given,
  reports its position at once. What it does is recorded as the list of its effects in
  the order they happen. \<open>move\<close> and \<open>stop\<close> are the two listeners.
\<close>

datatype drag_effect =
  AddEventListener string
| RemoveEventListener string
| OnMove real real

record container =
  dims_left :: real
  dims_top :: real
  pageXOffset :: real
  pageYOffset :: real

record page_event =
  pageX :: real
  pageY :: real

definition move :: "container \<Rightarrow> page_event \<Rightarrow> drag_effect list" where
  "move c pointerEvent =
     (let offsetX = fl (dims_left c + pageXOffset c);
          offsetY = fl (dims_top c + pageYOffset c);
          x = fl (pageX pointerEvent - offsetX);
          y = fl (pageY pointerEvent - offsetY)
      in [OnMove x y])"

definition stop :: "drag_effect list" where
  "stop = [RemoveEventListener ''pointermove'', RemoveEventListener ''pointerup'']"

definition drag :: "container \<Rightarrow> page_event option \<Rightarrow> drag_effect list" where
  \<comment> \<open>The second argument is \<open>options?.initialEvent\<close>.\<close>
  "drag c initialEvent =
     [AddEventListener ''pointermove'', AddEventListener ''pointerup'']
     @ (case initialEvent of None \<Rightarrow> [] | Some e \<Rightarrow> move c e)"

section \<open>Tree: items, identity and attributes\<close>

text \<open>
  The \<open>sl-tree-item\<close> elements below an \<open>sl-tree\<close> form a forest. Its nesting is a list
  of \<open>shape\<close>s; an element is named by its \<open>path\<close>, the child indices leading to it from
  the tree, so \<open>item !== selectedItem\<close> is inequality of paths. The attributes the code
  reads and writes live in a store from paths to \<open>tree_item\<close> records, which the
  functions thread through. Selecting never changes the nesting.
\<close>

record tree_item =
  selected :: bool
  indeterminate :: bool
  disabled :: bool
  expanded :: bool
  lazy :: bool
  loading :: bool
  selectable :: bool

datatype shape = Node (kids: "shape list")

type_synonym path = "nat list"
type_synonym store = "path \<Rightarrow> tree_item"

datatype mode = Single | Multiple | Leaf

text \<open>
  \<open>emitted\<close> collects the \<open>selection\<close> detail of every \<open>sl-selection-change\<close> event.
\<close>

record tree =
  selection :: mode
  roots :: "shape list"
  attrs :: store
  emitted :: "path list list"

fun itemAt :: "shape list \<Rightarrow> path \<Rightarrow> shape option" where
  \<comment> \<open>The element a path names, if the forest has one there.\<close>
  "itemAt ts [] = None"
| "itemAt ts (i # p) =
     (if i < length ts then (if p = [] then Some (ts ! i) else itemAt (kids (ts ! i)) p)
      else None)"

definition parentItem :: "path \<Rightarrow> path option" where
  \<comment> \<open>\<open>parentElement\<close> when it is a tree item: a top-level item's parent is the tree
      itself, for which \<open>isTreeItem\<close> is false and \<open>closest('[role=treeitem]')\<close> finds
      nothing.\<close>
  "parentItem p = (if length p \<le> 1 then None else Some (butlast p))"

definition getChildrenItems :: "bool \<Rightarrow> store \<Rightarrow> path \<Rightarrow> shape \<Rightarrow> path list" where
  \<comment> \<open>Modelled from the spec: \<open>getChildrenItems\<close> of the tree item class, which is not
      among the sources. The direct child items in document order, the disabled ones
      left out when \<open>includeDisabled\<close> is false; called without options it returns
      every child.\<close>
  "getChildrenItems includeDisabled \<sigma> p sh =
     filter (\<lambda>c. includeDisabled \<or> \<not> disabled (\<sigma> c)) (map (\<lambda>i. p @ [i]) [0 ..< length (kids sh)])"

definition isLeaf :: "shape \<Rightarrow> bool" where
  \<comment> \<open>Modelled from the spec: \<open>isLeaf\<close> of the tree item class (derived: no children).\<close>
  "isLeaf sh = (kids sh = [])"

fun pathsOf :: "path \<Rightarrow> shape \<Rightarrow> path list"
  and pathsOfList :: "path \<Rightarrow> nat \<Rightarrow> shape list \<Rightarrow> path list" where
  "pathsOf p (Node ks) = p # pathsOfList p 0 ks"
| "pathsOfList p i [] = []"
| "pathsOfList p i (k # ks) = pathsOf (p @ [i]) k @ pathsOfList p (Suc i) ks"

definition treeItems :: "tree \<Rightarrow> path list" where
  \<comment> \<open>The live collection \<open>getElementsByTagName('sl-tree-item')\<close>: every item, in
      document order.\<close>
  "treeItems t = pathsOfList [] 0 (roots t)"

section \<open>Tree: selection\<close>

function syncAncestors :: "shape list \<Rightarrow> store \<Rightarrow> path \<Rightarrow> store" where
  "syncAncestors rs \<sigma> treeItem =
     (case parentItem treeItem of
        None \<Rightarrow> \<sigma>
      | Some parent \<Rightarrow>
         (case itemAt rs parent of
            None \<Rightarrow> \<sigma>
          | Some sh \<Rightarrow>
             (let children = getChildrenItems False \<sigma> parent sh;
                  allChecked = list_all (\<lambda>item. selected (\<sigma> item)) children;
                  allUnchecked = list_all (\<lambda>item. \<not> selected (\<sigma> item) \<and> \<not> indeterminate (\<sigma> item))
                                   children;
                  \<sigma>1 = \<sigma>(parent := (\<sigma> parent)\<lparr>selected := allChecked,
                                                    indeterminate := \<not> allChecked \<and> \<not> allUnchecked\<rparr>)
              in syncAncestors rs \<sigma>1 parent)))"
  by pat_completeness auto
termination
  by (relation "measure (\<lambda>(rs, \<sigma>, p). length p)") (auto simp: parentItem_def split: if_splits)

declare syncAncestors.simps [simp del]

text \<open>
  \<open>syncDescendants\<close> is given the item's path and its subtree; \<open>syncChildren\<close> is its
  \<open>for\<close> loop over \<open>treeItem.getChildrenItems()\<close>, which without options returns every
  child: it starts at the child with index \<open>i\<close> and reads \<open>treeItem.selected\<close> anew for
  each child.
\<close>

fun syncDescendants :: "store \<Rightarrow> path \<Rightarrow> shape \<Rightarrow> store"
  and syncChildren :: "store \<Rightarrow> path \<Rightarrow> nat \<Rightarrow> shape list \<Rightarrow> store" where
  "syncDescendants \<sigma> treeItem (Node ks) = syncChildren \<sigma> treeItem 0 ks"
| "syncChildren \<sigma> treeItem i [] = \<sigma>"
| "syncChildren \<sigma> treeItem i (k # ks) =
     (let childItem = treeItem @ [i];
          \<sigma>1 = \<sigma>(childItem := (\<sigma> childItem)\<lparr>selected := \<not> disabled (\<sigma> childItem)
                                                              \<and> selected (\<sigma> treeItem)\<rparr>)
      in syncChildren (syncDescendants \<sigma>1 childItem k) treeItem (Suc i) ks)"

definition syncCheckboxes :: "shape list \<Rightarrow> store \<Rightarrow> path \<Rightarrow> store" where
  "syncCheckboxes rs \<sigma> changedTreeItem =
     (case itemAt rs changedTreeItem of
        None \<Rightarrow> \<sigma>
      | Some sh \<Rightarrow> syncDescendants (syncAncestors rs \<sigma> changedTreeItem) changedTreeItem sh)"

definition syncTreeItems :: "tree \<Rightarrow> path \<Rightarrow> tree" where
  "syncTreeItems t selectedItem =
     (if selection t = Multiple
      then t\<lparr>attrs := syncCheckboxes (roots t) (attrs t) selectedItem\<rparr>
      else t\<lparr>attrs := fold (\<lambda>item \<sigma>. if item \<noteq> selectedItem
                                     then \<sigma>(item := (\<sigma> item)\<lparr>selected := False\<rparr>) else \<sigma>)
                          (treeItems t) (attrs t)\<rparr>)"

definition selectedItems :: "tree \<Rightarrow> path list" where
  "selectedItems t = filter (\<lambda>item. selected (attrs t item)) (treeItems t)"

definition selectItem :: "tree \<Rightarrow> path \<Rightarrow> tree" where
  "selectItem t selectedItem =
     (let \<sigma> = attrs t;
          t1 = (if selection t = Multiple
                then (let \<sigma>1 = \<sigma>(selectedItem := (\<sigma> selectedItem)\<lparr>selected := \<not> selected (\<sigma> selectedItem)\<rparr>);
                          \<sigma>2 = (if lazy (\<sigma>1 selectedItem)
                                then \<sigma>1(selectedItem := (\<sigma>1 selectedItem)\<lparr>expanded := True\<rparr>) else \<sigma>1)
                      in syncTreeItems (t\<lparr>attrs := \<sigma>2\<rparr>) selectedItem)
                else if selection t = Single
                        \<or> (case itemAt (roots t) selectedItem of None \<Rightarrow> False | Some sh \<Rightarrow> isLeaf sh)
                then syncTreeItems
                       (t\<lparr>attrs := \<sigma>(selectedItem := (\<sigma> selectedItem)\<lparr>selected := True\<rparr>)\<rparr>) selectedItem
                else if selection t = Leaf
                then t\<lparr>attrs := \<sigma>(selectedItem := (\<sigma> selectedItem)\<lparr>expanded := \<not> expanded (\<sigma> selectedItem)\<rparr>)\<rparr>
                else t)
      in t1\<lparr>emitted := emitted t1 @ [selectedItems t1]\<rparr>)"

section \<open>Tree: keyboard navigation\<close>


section \<open>Closed forms and concrete inputs\<close>

definition correctedStep :: "real \<Rightarrow> real \<Rightarrow> real" where
  \<comment> \<open>The step the two step corrections leave, for the computed width \<open>d\<close> of the
      range.\<close>
  "correctedStep d st = (let st1 = (if st > d then d else st) in if st1 \<le> 0 then 1 else st1)"

definition mr_init :: multi_range where
  \<comment> \<open>The field initialisers of the class, with a rendered track 210 wide.\<close>
  "mr_init = \<lparr>mr_disabled = False, mr_min = 0, mr_max = 100, mr_step = 1, mr_value = [0, 100],
     sliderValues = [], nextId = 1, baseDiv = \<lparr>rect_left = 0, rect_width = 210\<rparr>,
     activeTrack = Some \<lparr>tr_display = ''none'', tr_left = 0, tr_width = 0\<rparr>, effects = []\<rparr>"

definition new_handle :: "nat \<Rightarrow> handle" where
  "new_handle i = \<lparr>sliderId = i, pointerId = None, clientWidth = 10, grabbed = False,
     aria_valuenow = 0, style_left = None\<rparr>"

definition c1_input :: multi_range where
  "c1_input = mr_init\<lparr>mr_max := 10, mr_step := 3, mr_value := [11]\<rparr>"

definition c1_decimal :: multi_range where
  \<comment> \<open>The range \<open>0 .. 1\<close> with the step \<open>0.1\<close> and the single value \<open>0.3\<close>.\<close>
  "c1_decimal = mr_init\<lparr>mr_max := 1, mr_step := fl (1 / 10), mr_value := [fl (3 / 10)]\<rparr>"

definition c2_state :: multi_range where
  "c2_state = render (willUpdate True (mr_init\<lparr>mr_max := 8, mr_step := 5, mr_value := [0, 8]\<rparr>))"

definition c2_event :: pointer_event where
  "c2_event = \<lparr>ev_pointerId = 7, clientX = 500\<rparr>"

definition c2_handle :: handle where
  "c2_handle = fst (onClickHandle c2_event (new_handle 2) c2_state)"

definition c4_input :: multi_range where
  "c4_input = mr_init\<lparr>mr_min := 0, mr_max := 1 / 2, mr_step := 0\<rparr>"

definition c4_good :: multi_range where
  "c4_good = mr_init\<lparr>mr_min := 10, mr_max := 0, mr_step := - 3\<rparr>"




definition tie_state :: multi_range where
  \<comment> \<open>The defaults, normalised and rendered.\<close>
  "tie_state = render (willUpdate True mr_init)"

definition tie_handle :: handle where
  "tie_handle = (new_handle 1)\<lparr>pointerId := Some 7\<rparr>"

definition tie_event :: pointer_event where
  "tie_event = \<lparr>ev_pointerId = 7, clientX = 34\<rparr>"

definition track_decimal :: multi_range where
  \<comment> \<open>The range \<open>0 .. 1\<close> with the values \<open>0.07\<close> and \<open>1\<close>.\<close>
  "track_decimal = mr_init\<lparr>mr_max := 1, mr_value := [fl (7 / 100), 1]\<rparr>"

definition c9_container :: container where
  "c9_container = \<lparr>dims_left = 20, dims_top = 30, pageXOffset = 0, pageYOffset = 100\<rparr>"

definition c9_event :: page_event where
  "c9_event = \<lparr>pageX = 50, pageY = 170\<rparr>"

definition parentFlags :: "store \<Rightarrow> path \<Rightarrow> shape \<Rightarrow> tree_item" where
  \<comment> \<open>What one step of \<open>syncAncestors\<close> writes to the parent.\<close>
  "parentFlags \<sigma> parent sh =
     (let children = getChildrenItems False \<sigma> parent sh;
          allChecked = list_all (\<lambda>item. selected (\<sigma> item)) children;
          allUnchecked = list_all (\<lambda>item. \<not> selected (\<sigma> item) \<and> \<not> indeterminate (\<sigma> item)) children
      in (\<sigma> parent)\<lparr>selected := allChecked, indeterminate := \<not> allChecked \<and> \<not> allUnchecked\<rparr>)"

definition toggleSelected :: "store \<Rightarrow> path \<Rightarrow> store" where
  \<comment> \<open>The two assignments that open the \<open>multiple\<close> branch of \<open>selectItem\<close>.\<close>
  "toggleSelected \<sigma> p =
     (let \<sigma>1 = \<sigma>(p := (\<sigma> p)\<lparr>selected := \<not> selected (\<sigma> p)\<rparr>)
      in if lazy (\<sigma>1 p) then \<sigma>1(p := (\<sigma>1 p)\<lparr>expanded := True\<rparr>) else \<sigma>1)"

definition consistent :: "store \<Rightarrow> path \<Rightarrow> shape \<Rightarrow> bool" where
  \<comment> \<open>The invariant the specification states for one item with the subtree \<open>sh\<close>:
      selected iff all its non-disabled children are selected, and indeterminate iff
      they are neither all selected nor all unselected and non-indeterminate.\<close>
  "consistent \<sigma> q sh =
     (let children = getChildrenItems False \<sigma> q sh
      in (selected (\<sigma> q) \<longleftrightarrow> list_all (\<lambda>c. selected (\<sigma> c)) children)
         \<and> (indeterminate (\<sigma> q) \<longleftrightarrow>
              \<not> list_all (\<lambda>c. selected (\<sigma> c)) children
              \<and> \<not> list_all (\<lambda>c. \<not> selected (\<sigma> c) \<and> \<not> indeterminate (\<sigma> c)) children))"

definition item0 :: tree_item where
  "item0 = \<lparr>selected = False, indeterminate = False, disabled = False, expanded = False,
     lazy = False, loading = False, selectable = True\<rparr>"

definition c3_initial :: tree where
  \<comment> \<open>A root item with two leaf children, nothing selected.\<close>
  "c3_initial = \<lparr>selection = Multiple, roots = [Node [Node [], Node []]],
     attrs = (\<lambda>_. item0), emitted = []\<rparr>"

definition c3_after :: tree where
  \<comment> \<open>The first child is selected, then the root.\<close>
  "c3_after = selectItem (selectItem c3_initial [0, 0]) [0]"

definition c3_disabled :: tree where
  \<comment> \<open>A root whose only child is disabled; nothing selected.\<close>
  "c3_disabled = \<lparr>selection = Multiple, roots = [Node [Node []]],
     attrs = (\<lambda>_. item0)([0, 0] := item0\<lparr>disabled := True\<rparr>), emitted = []\<rparr>"

definition c3_twice :: tree where
  \<comment> \<open>The root is selected, then selected again.\<close>
  "c3_twice = selectItem (selectItem c3_disabled [0]) [0]"

definition c3_deep :: tree where
  \<comment> \<open>A root with the children A and B, A with two leaf children; nothing selected.\<close>
  "c3_deep = \<lparr>selection = Multiple, roots = [Node [Node [Node [], Node []], Node []]],
     attrs = (\<lambda>_. item0), emitted = []\<rparr>"

definition c7_tree :: tree where
  \<comment> \<open>Two top-level items, the first with one child; the child and the second item
      start out selected.\<close>
  "c7_tree = \<lparr>selection = Single, roots = [Node [Node []], Node []],
     attrs = (\<lambda>_. item0\<lparr>selectable := False\<rparr>)
               ([0, 0] := item0\<lparr>selectable := False, selected := True\<rparr>,
                [1] := item0\<lparr>selectable := False, selected := True\<rparr>),
     emitted = []\<rparr>"


definition c10_initial :: tree where
  \<comment> \<open>A root, its only child A, and two leaves below A; nothing selected.\<close>
  "c10_initial = \<lparr>selection = Multiple, roots = [Node [Node [Node [], Node []]]],
     attrs = (\<lambda>_. item0), emitted = []\<rparr>"

definition c10_before :: tree where
  "c10_before = selectItem c10_initial [0, 0, 0]"

definition c10_after :: tree where
  "c10_after = selectItem c10_before [0]"

section \<open>Rounding to binary64\<close>

lemma two_powi_Suc: "(2::real) powi (e + 1) = 2 * 2 powi e"
  by (simp add: power_int_add)

lemma two_powi_pred: "(2::real) powi (e - 1) = 2 powi e / 2"
  by (simp add: power_int_diff)

lemma expo2_bounds:
  "0 < x \<Longrightarrow> 2 powi expo2 x \<le> x \<and> x < 2 powi (expo2 x + 1)"
proof (induction x rule: expo2.induct)
  case (1 x)
  consider "x < 1" | "2 \<le> x" | "1 \<le> x" "x < 2" by linarith
  then show ?case
  proof cases
    case 1
    with "1.prems" have e: "expo2 x = expo2 (2 * x) - 1" by (subst expo2.simps) simp
    from "1.IH"(1) "1.prems" 1
    have "2 powi expo2 (2 * x) \<le> 2 * x \<and> 2 * x < 2 powi (expo2 (2 * x) + 1)" by simp
    then show ?thesis by (simp add: e two_powi_pred two_powi_Suc)
  next
    case 2
    with "1.prems" have e: "expo2 x = expo2 (x / 2) + 1" by (subst expo2.simps) simp
    from "1.IH"(2) "1.prems" 2
    have "2 powi expo2 (x / 2) \<le> x / 2 \<and> x / 2 < 2 powi (expo2 (x / 2) + 1)" by simp
    then have "2 * 2 powi expo2 (x / 2) \<le> x \<and> x < 2 * (2 * 2 powi expo2 (x / 2))"
      by (simp add: two_powi_Suc)
    then show ?thesis unfolding e two_powi_Suc .
  next
    case 3
    then have "expo2 x = 0" by (subst expo2.simps) simp
    with 3 show ?thesis by simp
  qed
qed

lemma two_powi_mono: "e \<le> e' \<Longrightarrow> (2::real) powi e \<le> 2 powi e'"
  by (rule power_int_increasing) simp_all

lemma expo2_unique:
  assumes "0 < x" and "2 powi e \<le> x" and "x < 2 powi (e + 1)"
  shows "expo2 x = e"
proof (rule ccontr)
  assume ne: "expo2 x \<noteq> e"
  note b = expo2_bounds [OF assms(1)]
  show False
  proof (cases "expo2 x < e")
    case True
    then have "2 powi (expo2 x + 1) \<le> (2::real) powi e" by (intro two_powi_mono) simp
    with b assms(2) show False by linarith
  next
    case False
    with ne have "e + 1 \<le> expo2 x" by simp
    then have "2 powi (e + 1) \<le> (2::real) powi expo2 x" by (rule two_powi_mono)
    with b assms(3) show False by linarith
  qed
qed

lemma expo2_mono: "0 < x \<Longrightarrow> x \<le> y \<Longrightarrow> expo2 x \<le> expo2 y"
proof (rule ccontr)
  assume a: "0 < x" "x \<le> y" and n: "\<not> expo2 x \<le> expo2 y"
  then have "expo2 y + 1 \<le> expo2 x" by simp
  then have "2 powi (expo2 y + 1) \<le> (2::real) powi expo2 x" by (rule two_powi_mono)
  moreover from a have "0 < y" by simp
  note expo2_bounds [OF a(1)] expo2_bounds [OF this]
  ultimately show False using a(2) by linarith
qed

lemma roundEven_of_int [simp]: "roundEven (of_int n) = n"
  by (simp add: roundEven_def)

lemma roundEven_bounds: "\<lfloor>y\<rfloor> \<le> roundEven y \<and> roundEven y \<le> \<lfloor>y\<rfloor> + 1"
  by (simp add: roundEven_def Let_def)

lemma roundEven_mono: "x \<le> y \<Longrightarrow> roundEven x \<le> roundEven y"
proof (cases "\<lfloor>x\<rfloor> = \<lfloor>y\<rfloor>")
  case True
  assume "x \<le> y"
  then have "x - of_int \<lfloor>y\<rfloor> \<le> y - of_int \<lfloor>y\<rfloor>" by simp
  then show ?thesis unfolding roundEven_def Let_def True by auto
next
  case False
  assume "x \<le> y"
  then have "\<lfloor>x\<rfloor> \<le> \<lfloor>y\<rfloor>" by (rule floor_mono)
  with False have "\<lfloor>x\<rfloor> + 1 \<le> \<lfloor>y\<rfloor>" by simp
  with roundEven_bounds [of x] roundEven_bounds [of y] show ?thesis by linarith
qed

lemma roundEven_minus: "roundEven (- y) = - roundEven y"
proof (cases "y = of_int \<lfloor>y\<rfloor>")
  case True
  then obtain n where "y = of_int n" ..
  then have "roundEven (- y) = roundEven (of_int (- n))" by simp
  also have "\<dots> = - n" by (rule roundEven_of_int)
  finally show ?thesis using \<open>y = of_int n\<close> by simp
next
  case False
  then have lt: "of_int \<lfloor>y\<rfloor> < y" by (metis floor_correct less_eq_real_def of_int_floor_le)
  have ub: "y < of_int \<lfloor>y\<rfloor> + 1" by linarith
  have f: "\<lfloor>- y\<rfloor> = - \<lfloor>y\<rfloor> - 1"
  proof (rule floor_unique)
    have c: "of_int (- \<lfloor>y\<rfloor> - 1) = - of_int \<lfloor>y\<rfloor> - (1::real)" by simp
    show "of_int (- \<lfloor>y\<rfloor> - 1) \<le> - y" unfolding c using ub by linarith
    show "- y < of_int (- \<lfloor>y\<rfloor> - 1) + 1" unfolding c using lt by linarith
  qed
  show ?thesis
    unfolding roundEven_def Let_def f using lt by (auto simp: algebra_simps)
qed

lemma fl_0 [simp]: "fl 0 = 0"
  by (simp add: fl_def)

lemma fl_minus: "fl (- x) = - fl x"
  by (simp add: fl_def Let_def roundEven_minus)

lemma fl_pos_eq:
  "0 < x \<Longrightarrow> fl x = 2 powi (expo2 x - 52) * of_int (roundEven (x / 2 powi (expo2 x - 52)))"
  by (simp add: fl_def Let_def)

lemma ulp_scale:
  assumes "e' = e - 52 + int k"
  shows "(2::real) powi (e - 52) * of_int (2 ^ k) = 2 powi e'"
proof -
  have "(2::real) powi (e - 52 + int k) = 2 powi (e - 52) * 2 powi int k"
    by (rule power_int_add) simp
  then show ?thesis unfolding assms by simp
qed

lemma fl_ge_pow:
  assumes "0 < x"
  shows "2 powi expo2 x \<le> fl x"
proof -
  let ?e = "expo2 x" and ?u = "(2::real) powi (expo2 x - 52)"
  have u: "0 < ?u" by simp
  have p: "?u * of_int (2 ^ 52) = 2 powi ?e" by (rule ulp_scale) simp
  from expo2_bounds [OF assms] have "2 powi ?e \<le> x" by simp
  with p have "?u * of_int (2 ^ 52) \<le> x" by simp
  with u have "of_int (2 ^ 52) \<le> x / ?u" by (simp add: pos_le_divide_eq mult.commute)
  then have "roundEven (of_int (2 ^ 52)) \<le> roundEven (x / ?u)" by (rule roundEven_mono)
  then have "(2 ^ 52 :: int) \<le> roundEven (x / ?u)" by (simp only: roundEven_of_int)
  then have "(of_int (2 ^ 52) :: real) \<le> of_int (roundEven (x / ?u))" by (simp only: of_int_le_iff)
  with u have "?u * of_int (2 ^ 52) \<le> ?u * of_int (roundEven (x / ?u))"
    by (intro mult_left_mono) simp_all
  with p show ?thesis by (simp only: fl_pos_eq [OF assms])
qed

lemma fl_le_pow:
  assumes "0 < x"
  shows "fl x \<le> 2 powi (expo2 x + 1)"
proof -
  let ?e = "expo2 x" and ?u = "(2::real) powi (expo2 x - 52)"
  have u: "0 < ?u" by simp
  have p: "?u * of_int (2 ^ 53) = 2 powi (?e + 1)" by (rule ulp_scale) simp
  from expo2_bounds [OF assms] have "x < 2 powi (?e + 1)" by simp
  with p have "x \<le> ?u * of_int (2 ^ 53)" by simp
  with u have "x / ?u \<le> of_int (2 ^ 53)" by (simp add: pos_divide_le_eq mult.commute)
  then have "roundEven (x / ?u) \<le> roundEven (of_int (2 ^ 53))" by (rule roundEven_mono)
  then have "roundEven (x / ?u) \<le> (2 ^ 53 :: int)" by (simp only: roundEven_of_int)
  then have "(of_int (roundEven (x / ?u)) :: real) \<le> of_int (2 ^ 53)" by (simp only: of_int_le_iff)
  with u have "?u * of_int (roundEven (x / ?u)) \<le> ?u * of_int (2 ^ 53)"
    by (intro mult_left_mono) simp_all
  with p show ?thesis by (simp only: fl_pos_eq [OF assms])
qed

lemma fl_pos: "0 < x \<Longrightarrow> 0 < fl x"
proof -
  assume a: "0 < x"
  have "(0::real) < 2 powi expo2 x" by simp
  with fl_ge_pow [OF a] show ?thesis by linarith
qed

lemma fl_nonneg: "0 \<le> x \<Longrightarrow> 0 \<le> fl x"
  using fl_pos [of x] by (cases "x = 0") auto

lemma fl_mono_pos:
  assumes "0 < x" and "x \<le> y"
  shows "fl x \<le> fl y"
proof -
  from assms have y: "0 < y" by simp
  from expo2_mono [OF assms] consider "expo2 x = expo2 y" | "expo2 x + 1 \<le> expo2 y" by linarith
  then show ?thesis
  proof cases
    case 1
    let ?u = "(2::real) powi (expo2 y - 52)"
    have u: "0 < ?u" by simp
    from assms(2) u have "x / ?u \<le> y / ?u" by (simp add: divide_right_mono)
    then have "roundEven (x / ?u) \<le> roundEven (y / ?u)" by (rule roundEven_mono)
    then have "(of_int (roundEven (x / ?u)) :: real) \<le> of_int (roundEven (y / ?u))" by simp
    with u have "?u * of_int (roundEven (x / ?u)) \<le> ?u * of_int (roundEven (y / ?u))"
      by (intro mult_left_mono) simp_all
    then show ?thesis by (simp only: fl_pos_eq [OF assms(1)] fl_pos_eq [OF y] 1)
  next
    case 2
    then have "2 powi (expo2 x + 1) \<le> (2::real) powi expo2 y" by (rule two_powi_mono)
    with fl_le_pow [OF assms(1)] fl_ge_pow [OF y] show ?thesis by linarith
  qed
qed

lemma fl_mono: "x \<le> y \<Longrightarrow> fl x \<le> fl y"
proof -
  assume le: "x \<le> y"
  consider "0 < x" | "x \<le> 0" "0 \<le> y" | "y < 0" by linarith
  then show ?thesis
  proof cases
    case 1
    then show ?thesis using le by (rule fl_mono_pos)
  next
    case 2
    from 2(1) have "0 \<le> fl (- x)" by (intro fl_nonneg) simp
    then have "fl x \<le> 0" by (simp add: fl_minus)
    with fl_nonneg [OF 2(2)] show ?thesis by linarith
  next
    case 3
    with le have "0 < - y" "- y \<le> - x" by simp_all
    then have "fl (- y) \<le> fl (- x)" by (rule fl_mono_pos)
    then show ?thesis by (simp add: fl_minus)
  qed
qed



lemma roundEven_exact: "y = of_int n \<Longrightarrow> roundEven y = n"
  by simp

lemma two_powi_nonneg_int: "0 \<le> k \<Longrightarrow> (2::real) powi k = of_int (2 ^ nat k)"
  by (simp add: power_int_def)

lemma fl_exact:
  assumes "0 < x" and "x / 2 powi (expo2 x - 52) = of_int n"
  shows "fl x = x"
proof -
  let ?u = "(2::real) powi (expo2 x - 52)"
  have u: "?u \<noteq> 0" by simp
  have "fl x = ?u * of_int (roundEven (x / ?u))" by (rule fl_pos_eq [OF assms(1)])
  also have "roundEven (x / ?u) = n" using assms(2) by (rule roundEven_exact)
  also have "?u * of_int n = ?u * (x / ?u)" by (simp only: assms(2))
  also have "\<dots> = x" using u by simp
  finally show ?thesis .
qed

lemma fl_representable_pos:
  assumes m: "0 < m" "m \<le> 2 ^ 53"
  shows "fl (of_int m * 2 powi j) = of_int m * 2 powi j"
proof -
  let ?x = "of_int m * (2::real) powi j"
  let ?e = "expo2 ?x"
  have x: "0 < ?x" using m(1) by simp
  note b = expo2_bounds [OF x]
  have "of_int m \<le> (2::real) ^ 53" using m(2) by (metis of_int_le_iff of_int_numeral of_int_power)
  then have "?x \<le> 2 ^ 53 * 2 powi j" by (intro mult_right_mono) simp_all
  also have "\<dots> = 2 powi (53 + j)" by (simp add: power_int_add)
  finally have xle: "?x \<le> 2 powi (53 + j)" .
  have ele: "?e \<le> 53 + j"
  proof (rule ccontr)
    assume "\<not> ?e \<le> 53 + j"
    then have "53 + j + 1 \<le> ?e" by simp
    then have "2 powi (53 + j + 1) \<le> (2::real) powi ?e" by (rule two_powi_mono)
    moreover have "(2::real) powi (53 + j) < 2 powi (53 + j + 1)"
      unfolding two_powi_Suc by simp
    ultimately show False using b xle by linarith
  qed
  have quot: "?x / 2 powi (?e - 52) = of_int m * 2 powi (j - (?e - 52))"
    by (simp add: power_int_diff)
  show ?thesis
  proof (cases "?e \<le> 52 + j")
    case True
    then have k: "0 \<le> j - (?e - 52)" by simp
    have "?x / 2 powi (?e - 52) = of_int (m * 2 ^ nat (j - (?e - 52)))"
      unfolding quot two_powi_nonneg_int [OF k] by simp
    then show ?thesis by (rule fl_exact [OF x])
  next
    case False
    with ele have e: "?e = 53 + j" by simp
    from b have "2 powi (53 + j) \<le> ?x" unfolding e by simp
    with xle have xe: "?x = 2 powi (53 + j)" by linarith
    have "?x / 2 powi (?e - 52) = 2 powi (53 + j) / 2 powi (53 + j - 52)"
      unfolding e xe [symmetric] by (simp only: xe)
    also have "\<dots> = 2 powi 52" by (simp add: power_int_diff [symmetric])
    also have "\<dots> = of_int (2 ^ 52)" by simp
    finally show ?thesis by (rule fl_exact [OF x])
  qed
qed

lemma fl_representable:
  assumes "\<bar>m\<bar> \<le> 2 ^ 53"
  shows "fl (of_int m * 2 powi j) = of_int m * 2 powi j"
proof -
  consider "m = 0" | "0 < m" | "0 < - m" by linarith
  then show ?thesis
  proof cases
    case 1
    then show ?thesis by simp
  next
    case 2
    with assms show ?thesis by (intro fl_representable_pos) simp_all
  next
    case 3
    with assms have "fl (of_int (- m) * 2 powi j) = of_int (- m) * 2 powi j"
      by (intro fl_representable_pos) simp_all
    then have "fl (- (of_int m * 2 powi j)) = - (of_int m * 2 powi j)" by simp
    then show ?thesis by (simp only: fl_minus neg_equal_iff_equal)
  qed
qed

lemma fl_1: "fl 1 = 1"
  using fl_representable [of 1 0] by simp

lemma fl_of_int: "\<bar>n\<bar> \<le> 2 ^ 53 \<Longrightarrow> fl (of_int n) = of_int n"
  using fl_representable [of n 0] by simp

lemma fl_numeral [simp]: "(numeral k :: int) \<le> 2 ^ 53 \<Longrightarrow> fl (numeral k) = numeral k"
  using fl_of_int [of "numeral k"] by simp

lemma fl_idem: "fl (fl x) = fl x"
proof -
  have pos: "fl (fl x) = fl x" if x: "0 < x" for x
  proof -
    let ?u = "(2::real) powi (expo2 x - 52)"
    let ?n = "roundEven (x / ?u)"
    have u: "0 < ?u" by simp
    have eq: "fl x = of_int ?n * 2 powi (expo2 x - 52)"
      by (simp only: fl_pos_eq [OF x] mult.commute)
    have "fl x \<le> 2 powi (expo2 x + 1)" by (rule fl_le_pow [OF x])
    also have "\<dots> = of_int (2 ^ 53) * ?u"
      using ulp_scale [of "expo2 x + 1" "expo2 x" 53] by (simp add: mult.commute)
    finally have "of_int ?n * ?u \<le> of_int (2 ^ 53) * ?u" unfolding eq .
    with u have "(of_int ?n :: real) \<le> of_int (2 ^ 53)" by (simp only: mult_le_cancel_right_pos)
    then have n1: "?n \<le> 2 ^ 53" by (simp only: of_int_le_iff)
    from fl_pos [OF x] have "0 < of_int ?n * ?u" unfolding eq .
    with u have "(0::real) < of_int ?n" by (simp only: zero_less_mult_pos2)
    then have n0: "0 < ?n" by (simp only: of_int_0_less_iff)
    from n0 n1 have "\<bar>?n\<bar> \<le> 2 ^ 53" by simp
    from fl_representable [OF this, of "expo2 x - 52"] show ?thesis unfolding eq [symmetric] .
  qed
  consider "x = 0" | "0 < x" | "0 < - x" by linarith
  then show ?thesis
  proof cases
    case 1
    then show ?thesis by simp
  next
    case 2
    then show ?thesis by (rule pos)
  next
    case 3
    from pos [OF this] show ?thesis by (simp add: fl_minus)
  qed
qed

text \<open>
  The values of \<open>fl\<close> that the concrete runs below need, each found from the exponent of
  its argument.
\<close>

lemma fl_eval:
  assumes "0 < x" and "2 powi e \<le> x" and "x < 2 powi (e + 1)"
  shows "fl x = 2 powi (e - 52) * of_int (roundEven (x / 2 powi (e - 52)))"
  using expo2_unique [OF assms] fl_pos_eq [OF assms(1)] by simp

lemma fl_dyadic: "fl (1 / 2) = 1 / 2" "fl (5 / 8) = 5 / 8"
  using fl_representable [of 1 "- 1"] fl_representable [of 5 "- 3"] by simp_all

lemma fl_tenth: "fl (1 / 10) = 3602879701896397 / 36028797018963968"
  by (simp add: fl_eval [where e = "- 4"] roundEven_def Let_def)

lemma fl_three_tenths: "fl (3 / 10) = 5404319552844595 / 18014398509481984"
  by (simp add: fl_eval [where e = "- 2"] roundEven_def Let_def)

lemma fl_seven_hundredths: "fl (7 / 100) = 1261007895663739 / 18014398509481984"
  by (simp add: fl_eval [where e = "- 4"] roundEven_def Let_def)

lemma fl_hundredth: "fl (1 / 100) = 5764607523034235 / 576460752303423488"
  by (simp add: fl_eval [where e = "- 7"] roundEven_def Let_def)

lemma fl_fraction_29_200: "fl (29 / 200) = 5224175567749775 / 36028797018963968"
  by (simp add: fl_eval [where e = "- 3"] roundEven_def Let_def)

lemma fl_eight_fifths: "fl (8 / 5) = 3602879701896397 / 2251799813685248"
  by (simp add: fl_eval [where e = 0] roundEven_def Let_def)

lemma fl_three_tenths_fixed:
  "fl (5404319552844595 / 18014398509481984) = 5404319552844595 / 18014398509481984"
  by (simp add: fl_eval [where e = "- 2"] roundEven_def Let_def)

lemma fl_quotient_03_01:
  "fl (10808639105689190 / 3602879701896397) = 6755399441055743 / 2251799813685248"
  by (simp add: fl_eval [where e = 1] roundEven_def Let_def)

lemma fl_product_01_3:
  "fl (10808639105689191 / 36028797018963968) = 1351079888211149 / 4503599627370496"
  by (simp add: fl_eval [where e = "- 2"] roundEven_def Let_def)

lemma fl_product_01_3_fixed:
  "fl (1351079888211149 / 4503599627370496) = 1351079888211149 / 4503599627370496"
  by (simp add: fl_eval [where e = "- 2"] roundEven_def Let_def)

lemma fl_seven_hundredths_fixed:
  "fl (1261007895663739 / 18014398509481984) = 1261007895663739 / 18014398509481984"
  by (simp add: fl_eval [where e = "- 4"] roundEven_def Let_def)

lemma fl_product_100_007:
  "fl (31525197391593475 / 4503599627370496) = 7881299347898369 / 1125899906842624"
  by (simp add: fl_eval [where e = 2] roundEven_def Let_def)

lemma fl_product_100_007_fixed:
  "fl (7881299347898369 / 1125899906842624) = 7881299347898369 / 1125899906842624"
  by (simp add: fl_eval [where e = 2] roundEven_def Let_def)

lemma fl_difference_1_007:
  "fl (16753390613818245 / 18014398509481984) = 4188347653454561 / 4503599627370496"
  by (simp add: fl_eval [where e = "- 1"] roundEven_def Let_def)

lemma fl_product_100_093: "fl (104708691336364025 / 1125899906842624) = 93"
  by (simp add: fl_eval [where e = 6] roundEven_def Let_def)

lemma fl_quotient_1_001: "fl (576460752303423488 / 5764607523034235) = 100"
  by (simp add: fl_eval [where e = 6] roundEven_def Let_def)

lemma fl_quotient_0145_001:
  "fl (16717361816799280 / 1152921504606847) = 8162774324609023 / 562949953421312"
  by (simp add: fl_eval [where e = 3] roundEven_def Let_def)

lemmas fl_values = fl_1 fl_dyadic fl_tenth fl_three_tenths fl_seven_hundredths fl_hundredth
  fl_fraction_29_200 fl_eight_fifths fl_three_tenths_fixed fl_quotient_03_01 fl_product_01_3
  fl_product_01_3_fixed fl_seven_hundredths_fixed fl_product_100_007 fl_product_100_007_fixed
  fl_difference_1_007 fl_product_100_093 fl_quotient_1_001 fl_quotient_0145_001

section \<open>Multi-range: normalisation\<close>

lemma arraysDiffer_iff: "arraysDiffer a b \<longleftrightarrow> a \<noteq> b"
  by (induction a b rule: arraysDiffer.induct) auto

lemma is_multiple_iff: "is_multiple d st \<longleftrightarrow> (\<exists>k::int. d = of_int k * st)"
proof (cases "st = 0")
  case True
  then show ?thesis by (simp add: is_multiple_def)
next
  case False
  show ?thesis
  proof
    assume "is_multiple d st"
    with False have "of_int \<lfloor>d / st\<rfloor> * st = d" by (simp add: is_multiple_def)
    then show "\<exists>k::int. d = of_int k * st" by metis
  next
    assume "\<exists>k::int. d = of_int k * st"
    then obtain k :: int where "d = of_int k * st" ..
    with False show "is_multiple d st" by (simp add: is_multiple_def)
  qed
qed

lemma correctRange_eq:
  "correctRange s = s\<lparr>mr_min := min (mr_min s) (mr_max s), mr_max := max (mr_min s) (mr_max s),
      mr_step := correctedStep (fl (max (mr_min s) (mr_max s) - min (mr_min s) (mr_max s)))
                   (mr_step s)\<rparr>"
proof (cases "mr_min s > mr_max s")
  case True
  then show ?thesis by (simp add: correctRange_def correctedStep_def Let_def min_def max_def)
next
  case False
  then show ?thesis by (simp add: correctRange_def correctedStep_def Let_def min_def max_def)
qed

lemma correctRange_min_max: "mr_min (correctRange s) \<le> mr_max (correctRange s)"
  by (simp add: correctRange_eq)

lemma correctRange_step_pos: "0 < mr_step (correctRange s)"
  by (simp add: correctRange_eq correctedStep_def Let_def)

lemma correctRange_value: "mr_value (correctRange s) = mr_value s"
  by (simp add: correctRange_eq)

lemma correctRange_min_double:
  "fl (mr_min s) = mr_min s \<Longrightarrow> fl (mr_max s) = mr_max s
   \<Longrightarrow> fl (mr_min (correctRange s)) = mr_min (correctRange s)"
  by (simp add: correctRange_eq min_def)

lemma Math_round_nonneg: "0 \<le> x \<Longrightarrow> 0 \<le> Math_round x"
  by (simp add: Math_round_def)

lemma snapped_nonneg:
  assumes "mr_min s < v" and "0 < mr_step s"
  shows "0 \<le> fl (fl (v - mr_min s) / mr_step s)"
proof -
  from assms(1) have "0 \<le> fl (v - mr_min s)" by (intro fl_nonneg) simp
  with assms(2) have "0 \<le> fl (v - mr_min s) / mr_step s" by simp
  then show ?thesis by (rule fl_nonneg)
qed

lemma adjust_range:
  assumes "mr_min s \<le> mr_max s" and "0 < mr_step s" and "fl (mr_min s) = mr_min s"
  shows "mr_min s \<le> adjust s v \<and> adjust s v \<le> mr_max s"
proof -
  have "mr_min s \<le> fl (mr_min s + fl (mr_step s * Math_round (fl (fl (v - mr_min s) / mr_step s))))"
    if "mr_min s < v"
  proof -
    have "0 \<le> mr_step s * Math_round (fl (fl (v - mr_min s) / mr_step s))"
      using assms(2) snapped_nonneg [OF that assms(2)]
      by (intro mult_nonneg_nonneg Math_round_nonneg) simp_all
    then have "0 \<le> fl (mr_step s * Math_round (fl (fl (v - mr_min s) / mr_step s)))"
      by (rule fl_nonneg)
    then have "fl (mr_min s)
                 \<le> fl (mr_min s + fl (mr_step s * Math_round (fl (fl (v - mr_min s) / mr_step s))))"
      by (intro fl_mono) simp
    with assms(3) show ?thesis by simp
  qed
  then show ?thesis using assms(1)
    by (auto simp: adjust_def Let_def)
qed

lemma adjust_grid:
  assumes "0 < mr_step s" and "fl (mr_min s) = mr_min s"
  shows "adjust s v = mr_max s
         \<or> (\<exists>k::int. 0 \<le> k \<and> adjust s v = fl (mr_min s + fl (mr_step s * of_int k)))"
proof (cases "v \<le> mr_min s")
  case True
  then have "adjust s v = mr_min s" by (simp add: adjust_def)
  also have "\<dots> = fl (mr_min s + fl (mr_step s * of_int 0))" using assms(2) by simp
  finally show ?thesis by blast
next
  case False
  then have lt: "mr_min s < v" by simp
  let ?k = "\<lfloor>fl (fl (v - mr_min s) / mr_step s) + 1 / 2\<rfloor>"
  from snapped_nonneg [OF lt assms(1)] have k: "0 \<le> ?k" by simp
  have "adjust s v = mr_max s \<or> adjust s v = fl (mr_min s + fl (mr_step s * of_int ?k))"
    using False by (simp add: adjust_def Let_def Math_round_def)
  with k show ?thesis by blast
qed

lemma willUpdate_value:
  "mr_value (willUpdate ch s) = sort_numericSort (map (adjust (correctRange s)) (mr_value s))"
  by (simp add: willUpdate_def Let_def emit_def arraysDiffer_iff correctRange_value)

lemma willUpdate_range:
  "mr_min (willUpdate ch s) = mr_min (correctRange s)"
  "mr_max (willUpdate ch s) = mr_max (correctRange s)"
  "mr_step (willUpdate ch s) = mr_step (correctRange s)"
  by (simp_all add: willUpdate_def Let_def emit_def)

text \<open>
  C1, as stated, fails. With \<open>min = 0\<close>, \<open>max = 10\<close>, \<open>step = 3\<close> the value \<open>11\<close> is
  normalised to \<open>10\<close>, the maximum, and \<open>10 - 0\<close> is not an integer multiple of \<open>3\<close>.
  And with \<open>min = 0\<close>, \<open>max = 1\<close>, \<open>step = 0.1\<close> the value \<open>0.3\<close> is normalised to
  \<open>0.30000000000000004\<close>, the rounded product of \<open>0.1\<close> and \<open>3\<close>: it is not the maximum,
  it differs from the value given, so that \<open>sl-change\<close> is emitted, and it is not an
  integer multiple of the step \<open>0.1\<close>.
\<close>

theorem C1_counterexample:
  "mr_value (willUpdate False c1_input) = [10]
   \<and> mr_min (willUpdate False c1_input) = 0 \<and> mr_step (willUpdate False c1_input) = 3
   \<and> \<not> is_multiple (10 - 0) 3
   \<and> mr_value (willUpdate False c1_decimal) = [1351079888211149 / 4503599627370496]
   \<and> mr_min (willUpdate False c1_decimal) = 0 \<and> mr_max (willUpdate False c1_decimal) = 1
   \<and> mr_step (willUpdate False c1_decimal) = 3602879701896397 / 36028797018963968
   \<and> effects (willUpdate False c1_decimal) = [Emit ''sl-change'']
   \<and> \<not> is_multiple (1351079888211149 / 4503599627370496 - 0)
          (3602879701896397 / 36028797018963968)"
  by (simp add: willUpdate_def correctRange_def adjust_def c1_input_def c1_decimal_def mr_init_def
        Let_def sort_numericSort_def emit_def is_multiple_def Math_round_def fl_values)

text \<open>
  C1, amended: for every configuration whose bounds are binary64 numbers and every input
  value \<open>v\<close>, the normalisation pass turns the value array \<open>[v]\<close> into \<open>[r]\<close> with \<open>r\<close>
  between the corrected \<open>min\<close> and \<open>max\<close>, and \<open>r\<close> is either the corrected \<open>max\<close> itself
  or the computed value of \<open>min + step * k\<close> for a non-negative integer \<open>k\<close>, the product
  and the sum each rounded to binary64.
\<close>

theorem C1_normalize_single:
  assumes "fl (mr_min s) = mr_min s" and "fl (mr_max s) = mr_max s"
  shows "\<exists>r. mr_value (willUpdate ch (s\<lparr>mr_value := [v]\<rparr>)) = [r]
       \<and> mr_min (willUpdate ch (s\<lparr>mr_value := [v]\<rparr>)) \<le> r
       \<and> r \<le> mr_max (willUpdate ch (s\<lparr>mr_value := [v]\<rparr>))
       \<and> (r = mr_max (willUpdate ch (s\<lparr>mr_value := [v]\<rparr>))
          \<or> (\<exists>k::int. 0 \<le> k
                \<and> r = fl (mr_min (willUpdate ch (s\<lparr>mr_value := [v]\<rparr>))
                          + fl (mr_step (willUpdate ch (s\<lparr>mr_value := [v]\<rparr>)) * of_int k))))"
proof -
  define c where "c = correctRange (s\<lparr>mr_value := [v]\<rparr>)"
  have d: "fl (mr_min c) = mr_min c"
    unfolding c_def using assms by (intro correctRange_min_double) simp_all
  have p: "0 < mr_step c" unfolding c_def by (rule correctRange_step_pos)
  have v: "mr_value (willUpdate ch (s\<lparr>mr_value := [v]\<rparr>)) = [adjust c v]"
    by (simp add: willUpdate_value c_def sort_numericSort_def)
  have r: "mr_min c \<le> adjust c v \<and> adjust c v \<le> mr_max c"
    using correctRange_min_max [of "s\<lparr>mr_value := [v]\<rparr>"] p d
    unfolding c_def [symmetric] by (rule adjust_range)
  from v r adjust_grid [OF p d, of v] show ?thesis
    by (simp add: willUpdate_range c_def)
qed

theorem C1_witness:
  "fl (mr_min c1_decimal) = mr_min c1_decimal \<and> fl (mr_max c1_decimal) = mr_max c1_decimal
   \<and> (\<exists>r. mr_value (willUpdate False (c1_decimal\<lparr>mr_value := [fl (3 / 10)]\<rparr>)) = [r]
       \<and> mr_min (willUpdate False (c1_decimal\<lparr>mr_value := [fl (3 / 10)]\<rparr>)) \<le> r
       \<and> r \<le> mr_max (willUpdate False (c1_decimal\<lparr>mr_value := [fl (3 / 10)]\<rparr>))
       \<and> (r = mr_max (willUpdate False (c1_decimal\<lparr>mr_value := [fl (3 / 10)]\<rparr>))
          \<or> (\<exists>k::int. 0 \<le> k
                \<and> r = fl (mr_min (willUpdate False (c1_decimal\<lparr>mr_value := [fl (3 / 10)]\<rparr>))
                          + fl (mr_step (willUpdate False (c1_decimal\<lparr>mr_value := [fl (3 / 10)]\<rparr>))
                                * of_int k)))))
   \<and> mr_value (willUpdate False (c1_decimal\<lparr>mr_value := [fl (3 / 10)]\<rparr>))
        = [1351079888211149 / 4503599627370496]
   \<and> mr_min (willUpdate False (c1_decimal\<lparr>mr_value := [fl (3 / 10)]\<rparr>)) = 0
   \<and> mr_max (willUpdate False (c1_decimal\<lparr>mr_value := [fl (3 / 10)]\<rparr>)) = 1
   \<and> fl (0 + fl (3602879701896397 / 36028797018963968 * of_int 3))
        = 1351079888211149 / 4503599627370496"
proof -
  let ?s = "willUpdate False (c1_decimal\<lparr>mr_value := [fl (3 / 10)]\<rparr>)"
  have h1: "fl (mr_min c1_decimal) = mr_min c1_decimal"
    by (simp add: c1_decimal_def mr_init_def)
  have h2: "fl (mr_max c1_decimal) = mr_max c1_decimal"
    by (simp add: c1_decimal_def mr_init_def fl_values)
  note main = C1_normalize_single [OF h1 h2, of False "fl (3 / 10)"]
  have e: "mr_value ?s = [1351079888211149 / 4503599627370496] \<and> mr_min ?s = 0 \<and> mr_max ?s = 1"
    by (simp add: willUpdate_def correctRange_def adjust_def c1_decimal_def mr_init_def
          Let_def sort_numericSort_def emit_def Math_round_def fl_values)
  then have e1: "mr_value ?s = [1351079888211149 / 4503599627370496]"
    and e2: "mr_min ?s = 0" and e3: "mr_max ?s = 1" by simp_all
  have g: "fl (0 + fl (3602879701896397 / 36028797018963968 * of_int 3))
             = 1351079888211149 / 4503599627370496"
    by (simp add: fl_values)
  show ?thesis by (intro conjI h1 h2 main e1 e2 e3 g)
qed

section \<open>Multi-range: the range correction\<close>

lemma correctedStep_idem:
  "0 \<le> d \<Longrightarrow> 0 < st \<or> d = 0 \<or> 1 \<le> d
   \<Longrightarrow> correctedStep d (correctedStep d st) = correctedStep d st"
  by (auto simp: correctedStep_def Let_def)

text \<open>
  C4, as stated, fails: from \<open>min = 0\<close>, \<open>max = 1/2\<close>, \<open>step = 0\<close> the first pass
  resets the step to \<open>1\<close>, which is wider than the range, so a second pass clamps it to
  \<open>1/2\<close>.
\<close>

theorem C4_counterexample:
  "mr_step (correctRange c4_input) = 1 \<and> mr_step (correctRange (correctRange c4_input)) = 1 / 2"
  by (simp add: correctRange_def c4_input_def mr_init_def Let_def fl_values)

text \<open>
  C4, amended: the range correction is idempotent on every triple whose step is positive,
  or whose bounds are equal, or whose bounds are at least \<open>1\<close> apart (so on every triple
  of integers): correcting the corrected component changes nothing.
\<close>

theorem C4_correctRange_idempotent:
  assumes "0 < mr_step s \<or> mr_min s = mr_max s \<or> 1 \<le> \<bar>mr_max s - mr_min s\<bar>"
  shows "correctRange (correctRange s) = correctRange s"
proof -
  let ?lo = "min (mr_min s) (mr_max s)" and ?hi = "max (mr_min s) (mr_max s)"
  let ?d = "fl (?hi - ?lo)"
  have d: "0 \<le> ?d" by (intro fl_nonneg) simp
  have h: "0 < mr_step s \<or> ?d = 0 \<or> 1 \<le> ?d"
  proof -
    consider "0 < mr_step s" | "mr_min s = mr_max s" | "1 \<le> \<bar>mr_max s - mr_min s\<bar>"
      using assms by blast
    then show ?thesis
    proof cases
      case 1
      then show ?thesis by simp
    next
      case 2
      then have "?hi - ?lo = 0" by simp
      then have "?d = 0" by simp
      then show ?thesis by simp
    next
      case 3
      then have "1 \<le> ?hi - ?lo" by (auto simp: min_def max_def)
      then have "fl 1 \<le> ?d" by (rule fl_mono)
      then show ?thesis by (simp add: fl_1)
    qed
  qed
  have "correctedStep ?d (correctedStep ?d (mr_step s)) = correctedStep ?d (mr_step s)"
    by (rule correctedStep_idem [OF d h])
  then show ?thesis
    by (simp add: correctRange_eq)
qed

theorem C4_witness:
  "(0 < mr_step c4_good \<or> mr_min c4_good = mr_max c4_good
      \<or> 1 \<le> \<bar>mr_max c4_good - mr_min c4_good\<bar>)
   \<and> correctRange (correctRange c4_good) = correctRange c4_good
   \<and> mr_min (correctRange c4_good) = 0 \<and> mr_max (correctRange c4_good) = 10
   \<and> mr_step (correctRange c4_good) = 1"
proof -
  have h: "0 < mr_step c4_good \<or> mr_min c4_good = mr_max c4_good
      \<or> 1 \<le> \<bar>mr_max c4_good - mr_min c4_good\<bar>"
    by (simp add: c4_good_def mr_init_def)
  have "mr_min (correctRange c4_good) = 0 \<and> mr_max (correctRange c4_good) = 10
      \<and> mr_step (correctRange c4_good) = 1"
    by (simp add: correctRange_def c4_good_def mr_init_def Let_def)
  with h C4_correctRange_idempotent [OF h] show ?thesis by simp
qed

section \<open>Multi-range: the value sequence stays sorted\<close>





lemma onDragHandle_ignored:
  "mr_disabled s \<or> \<not> has (sliderValues s) (sliderId h) \<or> pointerId h \<noteq> Some (ev_pointerId e)
   \<Longrightarrow> onDragHandle e h s = (h, s)"
  by (auto simp: onDragHandle_def)




section \<open>Multi-range: dragging\<close>

text \<open>
  Where rounding decides: with the defaults (\<open>0 .. 100\<close>, step \<open>1\<close>) on a track 210 wide
  with a handle 10 wide, the pointer at \<open>clientX = 34\<close> is at the fraction \<open>0.145\<close>; the
  quotient by the unit \<open>0.01\<close> is computed as \<open>14.499999999999998\<close>, not \<open>14.5\<close>, and the
  handle snaps to \<open>14\<close>.
\<close>

lemma tie_state_eq:
  "tie_state = \<lparr>mr_disabled = False, mr_min = 0, mr_max = 100, mr_step = 1, mr_value = [0, 100],
     sliderValues = [(1, 0), (2, 100)], nextId = 3, baseDiv = \<lparr>rect_left = 0, rect_width = 210\<rparr>,
     activeTrack = Some \<lparr>tr_display = ''none'', tr_left = 0, tr_width = 0\<rparr>, effects = []\<rparr>"
  by (simp add: tie_state_def render_def willUpdate_def correctRange_def adjust_def mr_init_def
        Let_def sort_numericSort_def emit_def upt_conv_Cons)

lemma onDragHandle_below_tie:
  "getNormalizedValueFromClientX tie_state tie_handle (clientX tie_event)
     = 5224175567749775 / 36028797018963968
   \<and> mr_value (snd (onDragHandle tie_event tie_handle tie_state)) = [14, 100]"
  by (simp add: tie_state_eq tie_handle_def new_handle_def tie_event_def onDragHandle_def
        getNormalizedValueFromClientX_def has_def Math_round_def moveHandle_def
        updateActiveTrack_def sort_numericSort_def emit_def Let_def fl_values)

lemma c2_state_eq:
  "c2_state = \<lparr>mr_disabled = False, mr_min = 0, mr_max = 8, mr_step = 5, mr_value = [0, 8],
     sliderValues = [(1, 0), (2, 8)], nextId = 3, baseDiv = \<lparr>rect_left = 0, rect_width = 210\<rparr>,
     activeTrack = Some \<lparr>tr_display = ''none'', tr_left = 0, tr_width = 0\<rparr>, effects = []\<rparr>"
  by (simp add: c2_state_def render_def willUpdate_def correctRange_def adjust_def mr_init_def
        Let_def sort_numericSort_def emit_def upt_conv_Cons)

lemma c2_handle_eq:
  "c2_handle = \<lparr>sliderId = 2, pointerId = Some 7, clientWidth = 10, grabbed = True,
     aria_valuenow = 0, style_left = None\<rparr>"
  by (simp add: c2_handle_def onClickHandle_def new_handle_def c2_state_eq c2_event_def Let_def)

text \<open>
  C2: the code breaks the claim. With \<open>min = 0\<close>, \<open>max = 8\<close>, \<open>step = 5\<close> and the values
  \<open>[0, 8]\<close> normalised and rendered, the second handle is pressed (pointer 7) and the
  pointer moved far to the right. The pointer fraction clamps to \<open>1\<close>, the snapped value
  is \<open>0 + 5 * round (8 / 5) = 10\<close>, and \<open>10\<close> is stored although \<open>max\<close> is \<open>8\<close>.
\<close>

theorem C2_drag_overshoots_max:
  "getNormalizedValueFromClientX c2_state c2_handle (clientX c2_event) = 1
   \<and> mr_max c2_state = 8
   \<and> mr_value (snd (onDragHandle c2_event c2_handle c2_state)) = [0, 10]"
  by (simp add: c2_state_eq c2_handle_eq c2_event_def onDragHandle_def
        getNormalizedValueFromClientX_def has_def Math_round_def moveHandle_def
        updateActiveTrack_def sort_numericSort_def emit_def Let_def fl_values)

section \<open>Multi-range: the active track\<close>

lemma fl_eq_0_iff: "fl x = 0 \<longleftrightarrow> x = 0"
proof
  assume z: "fl x = 0"
  show "x = 0"
  proof (rule ccontr)
    assume "x \<noteq> 0"
    then consider "0 < x" | "0 < - x" by linarith
    then show False
    proof cases
      case 1
      from fl_pos [OF this] z show False by simp
    next
      case 2
      from fl_pos [OF this] z show False by (simp add: fl_minus)
    qed
  qed
qed simp

lemma updateActiveTrack_hidden:
  assumes "activeTrack s = Some t" and "length (mr_value s) < 2 \<or> mr_min s = mr_max s"
  shows "activeTrack (updateActiveTrack s)
           = Some (t\<lparr>tr_display := ''none'', tr_left := 0, tr_width := 0\<rparr>)"
  using assms by (auto simp: updateActiveTrack_def)

lemma updateActiveTrack_shown:
  assumes "activeTrack s = Some t" and "\<not> (length (mr_value s) < 2 \<or> mr_min s = mr_max s)"
  shows "activeTrack (updateActiveTrack s)
           = Some (t\<lparr>tr_display := ''inline-block'',
                tr_left := fl (fl (100 * fl (hd (mr_value s) - mr_min s))
                                 / fl (mr_max s - mr_min s)),
                tr_width := fl (fl (100 * fl (last (mr_value s) - hd (mr_value s)))
                                  / fl (mr_max s - mr_min s))\<rparr>)"
  using assms by (auto simp: updateActiveTrack_def Let_def)

text \<open>
  Where rounding decides: for the values \<open>0.07\<close> and \<open>1\<close> in the range \<open>0 .. 1\<close> the track
  gets \<open>left = 7.000000000000001\<close> and \<open>width = 93\<close>.
\<close>

lemma updateActiveTrack_decimal:
  "activeTrack (updateActiveTrack track_decimal)
     = Some \<lparr>tr_display = ''inline-block'', tr_left = 7881299347898369 / 1125899906842624,
             tr_width = 93\<rparr>"
  by (simp add: updateActiveTrack_def track_decimal_def mr_init_def Let_def fl_values)

text \<open>
  C6: the code breaks the claim. After the drag of C2 (range \<open>0 .. 8\<close>, step \<open>5\<close>, values
  \<open>[0, 8]\<close>, second handle dragged to the end of the track) the value sequence is
  \<open>[0, 10]\<close>, and the active track is shown with \<open>left = 0\<close> and \<open>width = 125\<close> percent.
\<close>

theorem C6_track_after_drag_exceeds_100:
  "mr_value (snd (onDragHandle c2_event c2_handle c2_state)) = [0, 10]
   \<and> mr_min (snd (onDragHandle c2_event c2_handle c2_state)) = 0
   \<and> mr_max (snd (onDragHandle c2_event c2_handle c2_state)) = 8
   \<and> activeTrack (snd (onDragHandle c2_event c2_handle c2_state))
       = Some \<lparr>tr_display = ''inline-block'', tr_left = 0, tr_width = 125\<rparr>
   \<and> \<not> (0 + 125 \<le> (100::real))"
  by (simp add: c2_state_eq c2_handle_eq c2_event_def onDragHandle_def
        getNormalizedValueFromClientX_def has_def Math_round_def moveHandle_def
        updateActiveTrack_def sort_numericSort_def emit_def Let_def fl_values)

section \<open>The drag utility: order of effects\<close>

text \<open>
  C9, as stated, fails: called with an initial event, \<open>drag\<close> first attaches both
  listeners and only then reports the position; here the report \<open>OnMove 30 40\<close> is the
  third effect, after the two registrations.
\<close>

theorem C9_counterexample:
  "drag c9_container (Some c9_event)
     = [AddEventListener ''pointermove'', AddEventListener ''pointerup'', OnMove 30 40]"
  by (simp add: drag_def move_def c9_container_def c9_event_def Let_def)

text \<open>
  C9, amended: called with an initial event, \<open>drag\<close> attaches the \<open>pointermove\<close> and
  \<open>pointerup\<close> listeners and then, within the same call, computes the position for
  that event relative to the container and reports it through \<open>onMove\<close>; nothing else
  happens.
\<close>

theorem C9_initial_event_after_listeners:
  "drag c (Some e)
     = [AddEventListener ''pointermove'', AddEventListener ''pointerup'',
        OnMove (fl (pageX e - fl (dims_left c + pageXOffset c)))
               (fl (pageY e - fl (dims_top c + pageYOffset c)))]"
  by (simp add: drag_def move_def Let_def)

section \<open>Tree: what syncDescendants writes\<close>

lemma syncDescendants_only_selected:
  "syncDescendants \<sigma> p sh q = (\<sigma> q)\<lparr>selected := selected (syncDescendants \<sigma> p sh q)\<rparr>"
  and syncChildren_only_selected:
  "syncChildren \<sigma> p i ks q = (\<sigma> q)\<lparr>selected := selected (syncChildren \<sigma> p i ks q)\<rparr>"
proof (induction \<sigma> p sh and \<sigma> p i ks arbitrary: q and q rule: syncDescendants_syncChildren.induct)
  case (1 \<sigma> treeItem ks)
  then show ?case by simp
next
  case (2 \<sigma> treeItem i)
  then show ?case by simp
next
  case (3 \<sigma> treeItem i k ks)
  let ?c = "treeItem @ [i]"
  let ?\<sigma>1 = "\<sigma>(?c := (\<sigma> ?c)\<lparr>selected := \<not> disabled (\<sigma> ?c) \<and> selected (\<sigma> treeItem)\<rparr>)"
  let ?\<sigma>2 = "syncDescendants ?\<sigma>1 ?c k"
  let ?\<sigma>3 = "syncChildren ?\<sigma>2 treeItem (Suc i) ks"
  have a: "?\<sigma>3 q = (?\<sigma>2 q)\<lparr>selected := selected (?\<sigma>3 q)\<rparr>"
    by (rule "3.IH"(2) [OF refl refl])
  have b: "?\<sigma>2 q = (?\<sigma>1 q)\<lparr>selected := selected (?\<sigma>2 q)\<rparr>"
    by (rule "3.IH"(1) [OF refl refl])
  have c: "?\<sigma>1 q = (\<sigma> q)\<lparr>selected := selected (?\<sigma>1 q)\<rparr>"
    by simp
  have "?\<sigma>3 q = (\<sigma> q)\<lparr>selected := selected (?\<sigma>3 q)\<rparr>"
    by (subst a, subst b, subst c) simp
  then show ?case by (simp add: Let_def)
qed

lemma syncDescendants_disabled: "disabled (syncDescendants \<sigma> p sh q) = disabled (\<sigma> q)"
  by (subst syncDescendants_only_selected) simp

lemma syncDescendants_indeterminate:
  "indeterminate (syncDescendants \<sigma> p sh q) = indeterminate (\<sigma> q)"
  by (subst syncDescendants_only_selected) simp

lemma syncDescendants_frame:
  "\<not> strict_prefix p q \<Longrightarrow> syncDescendants \<sigma> p sh q = \<sigma> q"
  and syncChildren_frame:
  "(\<And>j r. q = p @ j # r \<Longrightarrow> j < i) \<Longrightarrow> syncChildren \<sigma> p i ks q = \<sigma> q"
proof (induction \<sigma> p sh and \<sigma> p i ks arbitrary: q and q rule: syncDescendants_syncChildren.induct)
  case (1 \<sigma> treeItem ks)
  have "syncChildren \<sigma> treeItem 0 ks q = \<sigma> q"
  proof (rule "1.IH")
    fix j r assume "q = treeItem @ j # r"
    then have "strict_prefix treeItem q" by (simp add: strict_prefix_def)
    with "1.prems" show "j < 0" by simp
  qed
  then show ?case by simp
next
  case (2 \<sigma> treeItem i)
  then show ?case by simp
next
  case (3 \<sigma> treeItem i k ks)
  let ?c = "treeItem @ [i]"
  let ?\<sigma>1 = "\<sigma>(?c := (\<sigma> ?c)\<lparr>selected := \<not> disabled (\<sigma> ?c) \<and> selected (\<sigma> treeItem)\<rparr>)"
  let ?\<sigma>2 = "syncDescendants ?\<sigma>1 ?c k"
  let ?\<sigma>3 = "syncChildren ?\<sigma>2 treeItem (Suc i) ks"
  have a: "?\<sigma>3 q = ?\<sigma>2 q"
  proof (rule "3.IH"(2) [OF refl refl])
    fix j r assume "q = treeItem @ j # r"
    then have "j < i" by (rule "3.prems")
    then show "j < Suc i" by simp
  qed
  have b: "?\<sigma>2 q = ?\<sigma>1 q"
  proof (rule "3.IH"(1) [OF refl refl])
    show "\<not> strict_prefix ?c q"
    proof
      assume "strict_prefix ?c q"
      then obtain z zs where "q = ?c @ z # zs" by (auto elim: strict_prefixE')
      then have "q = treeItem @ i # z # zs" by simp
      then have "i < i" by (rule "3.prems")
      then show False by simp
    qed
  qed
  have c: "?\<sigma>1 q = \<sigma> q"
  proof -
    have "q \<noteq> ?c"
    proof
      assume "q = ?c"
      then have "q = treeItem @ i # []" by simp
      then have "i < i" by (rule "3.prems")
      then show False by simp
    qed
    then show ?thesis by simp
  qed
  from a b c show ?case by (simp add: Let_def)
qed

lemma itemAt_Cons_0: "itemAt (k # ks) (0 # r) = (if r = [] then Some k else itemAt (kids k) r)"
  by simp

lemma itemAt_Cons_Suc: "itemAt (k # ks) (Suc j # r) = itemAt ks (j # r)"
  by simp

lemma butlast_snoc_path: "butlast (p @ j # r) = (if r = [] then p else p @ j # butlast r)"
  by (simp add: butlast_append)

lemma syncDescendants_selected:
  "itemAt (kids sh) r = Some shd \<Longrightarrow>
     selected (syncDescendants \<sigma> p sh (p @ r))
       = (\<not> disabled (\<sigma> (p @ r)) \<and> selected (syncDescendants \<sigma> p sh (butlast (p @ r))))"
  and syncChildren_selected:
  "itemAt ks (j # r) = Some shd \<Longrightarrow>
     selected (syncChildren \<sigma> p i ks (p @ (i + j) # r))
       = (\<not> disabled (\<sigma> (p @ (i + j) # r))
          \<and> selected (syncChildren \<sigma> p i ks (butlast (p @ (i + j) # r))))"
proof (induction \<sigma> p sh and \<sigma> p i ks arbitrary: r shd and j r shd
        rule: syncDescendants_syncChildren.induct)
  case (1 \<sigma> treeItem ks)
  from "1.prems" obtain j r' where r: "r = j # r'" by (cases r) simp_all
  with "1.prems" have "itemAt ks (j # r') = Some shd" by simp
  from "1.IH" [OF this, of] r show ?case by simp
next
  case (2 \<sigma> treeItem i)
  then show ?case by simp
next
  case (3 \<sigma> treeItem i k ks)
  let ?c = "treeItem @ [i]"
  let ?\<sigma>1 = "\<sigma>(?c := (\<sigma> ?c)\<lparr>selected := \<not> disabled (\<sigma> ?c) \<and> selected (\<sigma> treeItem)\<rparr>)"
  let ?\<sigma>2 = "syncDescendants ?\<sigma>1 ?c k"
  let ?\<sigma>3 = "syncChildren ?\<sigma>2 treeItem (Suc i) ks"
  let ?q = "treeItem @ (i + j) # r"
  have unfold: "syncChildren \<sigma> treeItem i (k # ks) = ?\<sigma>3" by (simp add: Let_def)
  have before_i: "?\<sigma>3 x = ?\<sigma>2 x" if "\<And>j' r'. x = treeItem @ j' # r' \<Longrightarrow> j' \<le> i" for x
  proof (rule syncChildren_frame)
    fix j' r' assume "x = treeItem @ j' # r'"
    then have "j' \<le> i" by (rule that)
    then show "j' < Suc i" by simp
  qed
  have at_p: "?\<sigma>3 treeItem = \<sigma> treeItem"
  proof -
    have "?\<sigma>3 treeItem = ?\<sigma>2 treeItem" by (rule before_i) simp
    also have "\<dots> = ?\<sigma>1 treeItem"
      by (rule syncDescendants_frame) (auto dest: prefix_length_less)
    also have "\<dots> = \<sigma> treeItem" by simp
    finally show ?thesis .
  qed
  show ?case
  proof (cases j)
    case 0
    have q3: "?\<sigma>3 ?q = ?\<sigma>2 ?q" by (rule before_i) (simp add: 0)
    show ?thesis
    proof (cases "r = []")
      case True
      have "?\<sigma>2 ?c = ?\<sigma>1 ?c" by (rule syncDescendants_frame) simp
      with q3 0 True at_p show ?thesis
        unfolding unfold by (simp add: butlast_append)
    next
      case False
      with "3.prems" 0 have valid: "itemAt (kids k) r = Some shd" by simp
      have ih: "selected (?\<sigma>2 (?c @ r))
                  = (\<not> disabled (?\<sigma>1 (?c @ r)) \<and> selected (?\<sigma>2 (butlast (?c @ r))))"
        by (rule "3.IH"(1) [OF refl refl valid])
      have d: "?\<sigma>1 (?c @ r) = \<sigma> (?c @ r)" using False by simp
      have bl: "butlast (?c @ r) = treeItem @ i # butlast r" using False by (simp add: butlast_append)
      have "?\<sigma>3 (treeItem @ i # butlast r) = ?\<sigma>2 (treeItem @ i # butlast r)"
        by (rule before_i) simp
      with ih d bl q3 0 False show ?thesis
        unfolding unfold by (simp add: butlast_append)
    qed
  next
    case (Suc j')
    with "3.prems" have valid: "itemAt ks (j' # r) = Some shd"
      by (simp only: itemAt_Cons_Suc)
    have ih: "selected (?\<sigma>3 (treeItem @ (Suc i + j') # r))
                = (\<not> disabled (?\<sigma>2 (treeItem @ (Suc i + j') # r))
                   \<and> selected (?\<sigma>3 (butlast (treeItem @ (Suc i + j') # r))))"
      by (rule "3.IH"(2) [OF refl refl valid])
    have d: "disabled (?\<sigma>2 x) = disabled (\<sigma> x)" for x
      by (simp add: syncDescendants_disabled)
    from ih d Suc show ?thesis
      unfolding unfold by simp
  qed
qed

text \<open>
  C10: \<open>syncDescendants\<close> changes nothing but \<open>selected\<close> flags; the \<open>indeterminate\<close>
  flag of every item is what it was. So an indeterminate descendant can end up selected
  and indeterminate: in a tree with a root, its only child A and two leaves below A,
  selecting a leaf makes A indeterminate, and selecting the root then selects A and
  leaves A indeterminate.
\<close>

theorem C10_syncDescendants_keeps_indeterminate:
  "syncDescendants \<sigma> p sh q = (\<sigma> q)\<lparr>selected := selected (syncDescendants \<sigma> p sh q)\<rparr>
   \<and> indeterminate (syncDescendants \<sigma> p sh q) = indeterminate (\<sigma> q)
   \<and> indeterminate (attrs c10_before [0, 0])
   \<and> selected (attrs c10_after [0, 0])
   \<and> indeterminate (attrs c10_after [0, 0])"
proof -
  have "indeterminate (attrs c10_before [0, 0])"
    by (simp add: c10_before_def c10_initial_def item0_def selectItem_def syncTreeItems_def
          syncCheckboxes_def syncAncestors.simps parentItem_def getChildrenItems_def
          selectedItems_def treeItems_def Let_def)
  moreover have "selected (attrs c10_after [0, 0]) \<and> indeterminate (attrs c10_after [0, 0])"
    by (simp add: c10_after_def c10_before_def c10_initial_def item0_def selectItem_def
          syncTreeItems_def syncCheckboxes_def syncAncestors.simps parentItem_def
          getChildrenItems_def selectedItems_def treeItems_def Let_def)
  moreover have "syncDescendants \<sigma> p sh q
                   = (\<sigma> q)\<lparr>selected := selected (syncDescendants \<sigma> p sh q)\<rparr>"
    by (rule syncDescendants_only_selected)
  ultimately show ?thesis
    by (simp add: syncDescendants_indeterminate)
qed

section \<open>Tree: the items of the tree and the loop over the children\<close>

text \<open>
  The paths \<open>treeItems\<close> lists are exactly those at which the forest has an item, and
  the index loop \<open>syncChildren\<close> is the \<open>for\<close> loop over all child items, each paired
  with its subtree.
\<close>

lemma mem_pathsOf_iff:
  "q \<in> set (pathsOf p sh) \<longleftrightarrow> q = p \<or> (\<exists>r. q = p @ r \<and> itemAt (kids sh) r \<noteq> None)"
  and mem_pathsOfList_iff:
  "q \<in> set (pathsOfList p i ks) \<longleftrightarrow> (\<exists>j r. q = p @ (i + j) # r \<and> itemAt ks (j # r) \<noteq> None)"
proof (induction p sh and p i ks arbitrary: q and q rule: pathsOf_pathsOfList.induct)
  case (1 p ks)
  have "(\<exists>r. q = p @ r \<and> itemAt ks r \<noteq> None)
          \<longleftrightarrow> (\<exists>j r. q = p @ (0 + j) # r \<and> itemAt ks (j # r) \<noteq> None)"
  proof
    assume "\<exists>r. q = p @ r \<and> itemAt ks r \<noteq> None"
    then obtain r where r: "q = p @ r" "itemAt ks r \<noteq> None" by blast
    then obtain j r' where "r = j # r'" by (cases r) simp_all
    with r show "\<exists>j r. q = p @ (0 + j) # r \<and> itemAt ks (j # r) \<noteq> None" by auto
  next
    assume "\<exists>j r. q = p @ (0 + j) # r \<and> itemAt ks (j # r) \<noteq> None"
    then obtain j r where "q = p @ (j # r)" "itemAt ks (j # r) \<noteq> None" by auto
    then show "\<exists>r. q = p @ r \<and> itemAt ks r \<noteq> None" by blast
  qed
  with "1.IH" [of q] show ?case by simp
next
  case (2 p i)
  then show ?case by simp
next
  case (3 p i k ks)
  have a: "q \<in> set (pathsOf (p @ [i]) k)
             \<longleftrightarrow> (\<exists>r. q = p @ (i + 0) # r \<and> itemAt (k # ks) (0 # r) \<noteq> None)"
  proof -
    have "q \<in> set (pathsOf (p @ [i]) k)
            \<longleftrightarrow> q = p @ [i] \<or> (\<exists>r. q = (p @ [i]) @ r \<and> itemAt (kids k) r \<noteq> None)"
      by (rule "3.IH"(1))
    also have "\<dots> \<longleftrightarrow> (\<exists>r. q = p @ i # r \<and> (r = [] \<or> itemAt (kids k) r \<noteq> None))"
      by auto
    also have "\<dots> \<longleftrightarrow> (\<exists>r. q = p @ (i + 0) # r \<and> itemAt (k # ks) (0 # r) \<noteq> None)"
      by auto
    finally show ?thesis .
  qed
  have b: "q \<in> set (pathsOfList p (Suc i) ks)
             \<longleftrightarrow> (\<exists>j r. q = p @ (i + Suc j) # r \<and> itemAt (k # ks) (Suc j # r) \<noteq> None)"
    using "3.IH"(2) [of q] by (simp only: itemAt_Cons_Suc add_Suc_shift add_Suc_right add_Suc)
  have "(\<exists>j r. q = p @ (i + j) # r \<and> itemAt (k # ks) (j # r) \<noteq> None)
          \<longleftrightarrow> (\<exists>r. q = p @ (i + 0) # r \<and> itemAt (k # ks) (0 # r) \<noteq> None)
              \<or> (\<exists>j r. q = p @ (i + Suc j) # r \<and> itemAt (k # ks) (Suc j # r) \<noteq> None)"
    (is "?L \<longleftrightarrow> ?A \<or> ?B")
  proof
    assume ?L
    then obtain j r where jr: "q = p @ (i + j) # r" "itemAt (k # ks) (j # r) \<noteq> None" by blast
    show "?A \<or> ?B"
    proof (cases j)
      case 0
      with jr have ?A by blast
      then show ?thesis ..
    next
      case (Suc j')
      with jr have ?B by blast
      then show ?thesis ..
    qed
  next
    assume "?A \<or> ?B"
    then show ?L by blast
  qed
  with a b show ?case by simp
qed

lemma mem_treeItems_iff: "q \<in> set (treeItems t) \<longleftrightarrow> itemAt (roots t) q \<noteq> None"
proof -
  have "q \<in> set (treeItems t) \<longleftrightarrow> (\<exists>j r. q = j # r \<and> itemAt (roots t) (j # r) \<noteq> None)"
    by (simp add: treeItems_def mem_pathsOfList_iff)
  also have "\<dots> \<longleftrightarrow> itemAt (roots t) q \<noteq> None"
    by (cases q) auto
  finally show ?thesis .
qed

lemma getChildrenItems_all:
  "getChildrenItems True \<sigma> p (Node ks) = map (\<lambda>i. p @ [i]) [0 ..< length ks]"
  by (simp add: getChildrenItems_def)

lemma syncChildren_fold:
  "syncChildren \<sigma> p i ks
     = fold (\<lambda>(j, k) \<sigma>. syncDescendants
                (\<sigma>(p @ [j] := (\<sigma> (p @ [j]))\<lparr>selected := \<not> disabled (\<sigma> (p @ [j])) \<and> selected (\<sigma> p)\<rparr>))
                (p @ [j]) k)
          (zip [i ..< i + length ks] ks) \<sigma>"
proof (induction ks arbitrary: i \<sigma>)
  case Nil
  then show ?case by simp
next
  case (Cons k ks)
  have "i < i + length (k # ks)" by simp
  then have "[i ..< i + length (k # ks)] = i # [Suc i ..< i + length (k # ks)]"
    by (rule upt_conv_Cons)
  also have "i + length (k # ks) = Suc i + length ks" by simp
  finally have "zip [i ..< i + length (k # ks)] (k # ks)
                  = (i, k) # zip [Suc i ..< Suc i + length ks] ks"
    by simp
  then show ?case by (simp only: fold.simps syncChildren.simps Let_def Cons.IH o_apply prod.case)
qed

section \<open>Tree: what syncAncestors establishes\<close>

lemma syncAncestors_top: "parentItem p = None \<Longrightarrow> syncAncestors rs \<sigma> p = \<sigma>"
  by (subst syncAncestors.simps) simp

lemma syncAncestors_invalid:
  "parentItem p = Some parent \<Longrightarrow> itemAt rs parent = None \<Longrightarrow> syncAncestors rs \<sigma> p = \<sigma>"
  by (simp add: syncAncestors.simps)

lemma syncAncestors_step:
  "parentItem p = Some parent \<Longrightarrow> itemAt rs parent = Some sh \<Longrightarrow>
   syncAncestors rs \<sigma> p = syncAncestors rs (\<sigma>(parent := parentFlags \<sigma> parent sh)) parent"
  by (subst syncAncestors.simps) (simp add: parentFlags_def Let_def)

lemma parentItem_Some: "parentItem p = Some parent \<Longrightarrow> parent = butlast p \<and> 2 \<le> length p"
  by (auto simp: parentItem_def split: if_splits)

lemma strict_prefix_butlast: "p \<noteq> [] \<Longrightarrow> strict_prefix (butlast p) p"
  by (cases p rule: rev_cases) (simp_all add: strict_prefix_def)

lemma syncAncestors_frame:
  "\<not> strict_prefix q p \<Longrightarrow> syncAncestors rs \<sigma> p q = \<sigma> q"
proof (induction rs \<sigma> p rule: syncAncestors.induct)
  case (1 rs \<sigma> p)
  show ?case
  proof (cases "parentItem p")
    case None
    then show ?thesis by (simp add: syncAncestors_top)
  next
    case (Some parent)
    note par = parentItem_Some [OF Some]
    show ?thesis
    proof (cases "itemAt rs parent")
      case None
      with Some show ?thesis by (simp add: syncAncestors_invalid)
    next
      case (Some sh)
      let ?\<sigma>1 = "\<sigma>(parent := parentFlags \<sigma> parent sh)"
      from par have "p \<noteq> []" by auto
      with par have pp: "strict_prefix parent p" by (simp add: strict_prefix_butlast)
      have nq: "\<not> strict_prefix q parent"
      proof
        assume "strict_prefix q parent"
        from this pp have "strict_prefix q p" by (rule prefix_order.less_trans)
        with "1.prems" show False by simp
      qed
      have "q \<noteq> parent" using pp "1.prems" by blast
      have "syncAncestors rs ?\<sigma>1 parent q = ?\<sigma>1 q"
        unfolding parentFlags_def Let_def
        by (rule "1.IH" [OF \<open>parentItem p = Some parent\<close> Some refl refl refl refl nq])
      moreover have "?\<sigma>1 q = \<sigma> q" using \<open>q \<noteq> parent\<close> by simp
      ultimately show ?thesis
        by (simp only: syncAncestors_step [OF \<open>parentItem p = Some parent\<close> Some])
    qed
  qed
qed

lemma getChildrenItems_cong:
  assumes "\<And>i. \<sigma>' (q @ [i]) = \<sigma> (q @ [i])"
  shows "getChildrenItems b \<sigma>' q sh = getChildrenItems b \<sigma> q sh"
  unfolding getChildrenItems_def
  by (rule filter_cong) (auto simp: assms)

lemma children_are_snoc: "c \<in> set (getChildrenItems b \<sigma> q sh) \<Longrightarrow> \<exists>i. c = q @ [i]"
  by (auto simp: getChildrenItems_def)

lemma consistent_cong:
  assumes ch: "\<And>i. \<sigma>' (q @ [i]) = \<sigma> (q @ [i])" and self: "\<sigma>' q = \<sigma> q"
  shows "consistent \<sigma>' q sh = consistent \<sigma> q sh"
proof -
  let ?cs = "getChildrenItems False \<sigma> q sh"
  have g: "getChildrenItems False \<sigma>' q sh = ?cs"
    by (rule getChildrenItems_cong) (rule ch)
  have c: "\<sigma>' c = \<sigma> c" if "c \<in> set ?cs" for c
    using children_are_snoc [OF that] ch by auto
  have a1: "(\<forall>c \<in> set ?cs. selected (\<sigma>' c)) = (\<forall>c \<in> set ?cs. selected (\<sigma> c))"
    by (rule ball_cong) (simp_all add: c)
  have a2: "(\<forall>c \<in> set ?cs. \<not> selected (\<sigma>' c) \<and> \<not> indeterminate (\<sigma>' c))
              = (\<forall>c \<in> set ?cs. \<not> selected (\<sigma> c) \<and> \<not> indeterminate (\<sigma> c))"
    by (rule ball_cong) (simp_all add: c)
  show ?thesis
    unfolding consistent_def Let_def list_all_iff g self a1 a2 ..
qed

lemma consistent_self:
  "consistent \<sigma> q sh \<longleftrightarrow>
     selected (\<sigma> q) = selected (parentFlags \<sigma> q sh)
     \<and> indeterminate (\<sigma> q) = indeterminate (parentFlags \<sigma> q sh)"
  by (simp add: consistent_def parentFlags_def Let_def)

lemma parentFlags_cong:
  assumes ch: "\<And>i. \<sigma>' (q @ [i]) = \<sigma> (q @ [i])"
  shows "selected (parentFlags \<sigma>' q sh) = selected (parentFlags \<sigma> q sh)"
    and "indeterminate (parentFlags \<sigma>' q sh) = indeterminate (parentFlags \<sigma> q sh)"
proof -
  let ?cs = "getChildrenItems False \<sigma> q sh"
  have g: "getChildrenItems False \<sigma>' q sh = ?cs"
    by (rule getChildrenItems_cong) (rule ch)
  have c: "\<sigma>' c = \<sigma> c" if "c \<in> set ?cs" for c
    using children_are_snoc [OF that] ch by auto
  have l1: "list_all (\<lambda>item. selected (\<sigma>' item)) ?cs = list_all (\<lambda>item. selected (\<sigma> item)) ?cs"
    by (rule list_all_cong) (simp_all add: c)
  have l2: "list_all (\<lambda>item. \<not> selected (\<sigma>' item) \<and> \<not> indeterminate (\<sigma>' item)) ?cs
              = list_all (\<lambda>item. \<not> selected (\<sigma> item) \<and> \<not> indeterminate (\<sigma> item)) ?cs"
    by (rule list_all_cong) (simp_all add: c)
  show "selected (parentFlags \<sigma>' q sh) = selected (parentFlags \<sigma> q sh)"
    unfolding parentFlags_def Let_def g l1 by simp
  show "indeterminate (parentFlags \<sigma>' q sh) = indeterminate (parentFlags \<sigma> q sh)"
    unfolding parentFlags_def Let_def g l1 l2 by simp
qed

lemma consistent_parentFlags: "consistent (\<sigma>(q := parentFlags \<sigma> q sh)) q sh"
proof -
  let ?\<sigma>1 = "\<sigma>(q := parentFlags \<sigma> q sh)"
  have ch: "?\<sigma>1 (q @ [i]) = \<sigma> (q @ [i])" for i by simp
  show ?thesis
    unfolding consistent_self
    by (simp add: parentFlags_cong [of ?\<sigma>1 q \<sigma>, OF ch])
qed

lemma itemAt_prefix:
  "itemAt rs (q @ r) = Some s \<Longrightarrow> q \<noteq> [] \<Longrightarrow> \<exists>s'. itemAt rs q = Some s'"
proof (induction q arbitrary: rs)
  case Nil
  then show ?case by simp
next
  case (Cons i q)
  show ?case
  proof (cases "q = []")
    case True
    with Cons.prems show ?thesis by (auto split: if_splits)
  next
    case False
    with Cons.prems have "i < length rs" and "itemAt (kids (rs ! i)) (q @ r) = Some s"
      by (auto split: if_splits)
    from Cons.IH [OF this(2) False] \<open>i < length rs\<close> False show ?thesis by simp
  qed
qed

lemma syncAncestors_consistent:
  assumes "itemAt rs p = Some shp" and "strict_prefix q p" and "itemAt rs q = Some shq"
  shows "consistent (syncAncestors rs \<sigma> p) q shq"
  using assms
proof (induction rs \<sigma> p arbitrary: shp rule: syncAncestors.induct)
  case (1 rs \<sigma> p)
  from "1.prems"(3) have qne: "q \<noteq> []" by auto
  from "1.prems"(2) obtain z zs where p: "p = q @ z # zs" by (auto elim: strict_prefixE')
  with qne have len: "2 \<le> length p" by (cases q) simp_all
  define parent where "parent = butlast p"
  from len have par: "parentItem p = Some parent" by (simp add: parentItem_def parent_def)
  from len have pne: "p \<noteq> []" by auto
  have parent_eq: "parent = q @ butlast (z # zs)"
    unfolding parent_def p by (simp add: butlast_append)
  have "p = parent @ [last p]" using pne by (simp add: parent_def)
  with "1.prems"(1) have "itemAt rs (parent @ [last p]) = Some shp" by simp
  moreover have "parent \<noteq> []" using parent_eq qne by simp
  ultimately obtain sh where sh: "itemAt rs parent = Some sh" using itemAt_prefix by blast
  let ?\<sigma>1 = "\<sigma>(parent := parentFlags \<sigma> parent sh)"
  have step: "syncAncestors rs \<sigma> p = syncAncestors rs ?\<sigma>1 parent"
    by (rule syncAncestors_step [OF par sh])
  show ?case
  proof (cases "q = parent")
    case True
    with sh "1.prems"(3) have shq: "shq = sh" by simp
    have "consistent (syncAncestors rs ?\<sigma>1 parent) parent sh = consistent ?\<sigma>1 parent sh"
    proof (rule consistent_cong)
      show "syncAncestors rs ?\<sigma>1 parent (parent @ [i]) = ?\<sigma>1 (parent @ [i])" for i
        by (rule syncAncestors_frame) (auto dest: prefix_length_less)
      show "syncAncestors rs ?\<sigma>1 parent parent = ?\<sigma>1 parent"
        by (rule syncAncestors_frame) simp
    qed
    with consistent_parentFlags [of \<sigma> parent sh] True shq step show ?thesis by simp
  next
    case False
    with parent_eq have "zs \<noteq> []" by auto
    with parent_eq have sp: "strict_prefix q parent"
      by (cases zs rule: rev_cases) (simp_all add: strict_prefix_def butlast_append)
    have "consistent (syncAncestors rs ?\<sigma>1 parent) q shq"
      unfolding parentFlags_def Let_def
      by (rule "1.IH" [OF par sh refl refl refl refl sh sp "1.prems"(3)])
    with step show ?thesis by simp
  qed
qed

section \<open>Tree: selecting in multiple mode\<close>

lemma itemAt_append:
  "itemAt rs p = Some sh \<Longrightarrow> r \<noteq> [] \<Longrightarrow> itemAt rs (p @ r) = itemAt (kids sh) r"
proof (induction p arbitrary: rs)
  case Nil
  then show ?case by simp
next
  case (Cons i p)
  show ?case
  proof (cases "p = []")
    case True
    with Cons.prems show ?thesis by (auto split: if_splits)
  next
    case False
    with Cons.prems have i: "i < length rs" and "itemAt (kids (rs ! i)) p = Some sh"
      by (auto split: if_splits)
    from Cons.IH [OF this(2) Cons.prems(2)] i False show ?thesis by simp
  qed
qed

lemma itemAt_single: "itemAt ks [i] = (if i < length ks then Some (ks ! i) else None)"
  by simp

lemma syncDescendants_child:
  assumes n: "r = [] \<and> shn = sh \<or> itemAt (kids sh) r = Some shn"
    and i: "i < length (kids shn)"
  shows "selected (syncDescendants \<sigma> p sh (p @ r @ [i]))
           = (\<not> disabled (syncDescendants \<sigma> p sh (p @ r @ [i]))
              \<and> selected (syncDescendants \<sigma> p sh (p @ r)))"
proof -
  have valid: "itemAt (kids sh) (r @ [i]) = Some (kids shn ! i)"
  proof (cases "r = []")
    case True
    with n have "shn = sh" by auto
    with True i show ?thesis by simp
  next
    case False
    with n have "itemAt (kids sh) r = Some shn" by auto
    from itemAt_append [OF this, of "[i]"] i show ?thesis by simp
  qed
  have "selected (syncDescendants \<sigma> p sh (p @ (r @ [i])))
          = (\<not> disabled (\<sigma> (p @ (r @ [i])))
             \<and> selected (syncDescendants \<sigma> p sh (butlast (p @ (r @ [i])))))"
    by (rule syncDescendants_selected [OF valid])
  moreover have "butlast (p @ (r @ [i])) = p @ r"
    by (simp add: butlast_append)
  ultimately show ?thesis
    by (simp add: syncDescendants_disabled)
qed

lemma syncDescendants_node:
  assumes n: "r = [] \<and> shn = sh \<or> itemAt (kids sh) r = Some shn"
  shows "list_all (\<lambda>c. selected (syncDescendants \<sigma> p sh c))
           (getChildrenItems False (syncDescendants \<sigma> p sh) (p @ r) shn)
         \<longleftrightarrow> getChildrenItems False (syncDescendants \<sigma> p sh) (p @ r) shn = []
               \<or> selected (syncDescendants \<sigma> p sh (p @ r))"
proof -
  let ?\<sigma>' = "syncDescendants \<sigma> p sh"
  let ?cs = "getChildrenItems False ?\<sigma>' (p @ r) shn"
  have "selected (?\<sigma>' c) = selected (?\<sigma>' (p @ r))" if "c \<in> set ?cs" for c
  proof -
    from that obtain i where c: "c = (p @ r) @ [i]" and i: "i < length (kids shn)"
      and en: "\<not> disabled (?\<sigma>' c)"
      by (auto simp: getChildrenItems_def)
    from syncDescendants_child [OF n i, of \<sigma> p] c en show ?thesis by simp
  qed
  then have "list_all (\<lambda>c. selected (?\<sigma>' c)) ?cs = list_all (\<lambda>c. selected (?\<sigma>' (p @ r))) ?cs"
    by (intro list_all_cong) simp_all
  also have "\<dots> \<longleftrightarrow> ?cs = [] \<or> selected (?\<sigma>' (p @ r))"
    by (cases ?cs) (auto simp: list_all_iff)
  finally show ?thesis .
qed

lemma selectItem_multiple:
  assumes "selection t = Multiple" and "itemAt (roots t) p = Some sh"
  shows "attrs (selectItem t p)
           = syncDescendants (syncAncestors (roots t) (toggleSelected (attrs t) p) p) p sh"
    and "roots (selectItem t p) = roots t"
    and "selection (selectItem t p) = selection t"
  using assms
  by (simp_all add: selectItem_def syncTreeItems_def syncCheckboxes_def toggleSelected_def Let_def)

lemma toggleSelected_other: "q \<noteq> p \<Longrightarrow> toggleSelected \<sigma> p q = \<sigma> q"
  by (simp add: toggleSelected_def Let_def)

lemma not_strict_prefix_child:
  "strict_prefix q p \<Longrightarrow> \<not> strict_prefix p (q @ [i])"
  by (auto dest!: prefix_length_less)

text \<open>
  C3, as stated, fails, in two ways. Start from a root with two leaf children and nothing
  selected. Selecting the first child leaves the root indeterminate; selecting the root
  then toggles it to selected and selects both children, but its \<open>indeterminate\<close> flag
  is not recomputed: the root ends up indeterminate although all its children are
  selected. And a root whose only child is disabled has no non-disabled child, so all
  of them are selected; selecting that root twice leaves it unselected all the same.
\<close>

theorem C3_counterexample:
  "selected (attrs c3_after [0]) \<and> indeterminate (attrs c3_after [0])
   \<and> selected (attrs c3_after [0, 0]) \<and> selected (attrs c3_after [0, 1])
   \<and> itemAt (roots c3_after) [0] = Some (Node [Node [], Node []])
   \<and> \<not> consistent (attrs c3_after) [0] (Node [Node [], Node []])
   \<and> \<not> selected (attrs c3_twice [0])
   \<and> getChildrenItems False (attrs c3_twice) [0] (Node [Node []]) = []
   \<and> itemAt (roots c3_twice) [0] = Some (Node [Node []])
   \<and> \<not> consistent (attrs c3_twice) [0] (Node [Node []])"
  by (simp add: c3_after_def c3_initial_def c3_twice_def c3_disabled_def item0_def
        selectItem_def syncTreeItems_def
        syncCheckboxes_def syncAncestors.simps parentItem_def getChildrenItems_def
        selectedItems_def treeItems_def Let_def consistent_def)

text \<open>
  C3, amended: in multiple mode, after \<open>selectItem\<close> on an item \<open>p\<close> of the tree,
  every proper ancestor of \<open>p\<close> satisfies both equivalences of the invariant; \<open>p\<close> and
  every descendant of \<open>p\<close> that has at least one non-disabled child is selected if and
  only if all its non-disabled children are selected; every item that is neither an
  ancestor nor a descendant of \<open>p\<close> keeps its attributes, and satisfies the invariant
  after the call exactly if it did before. The nesting and the mode are unchanged.
\<close>

theorem C3_selectItem_multiple:
  assumes "selection t = Multiple" and "itemAt (roots t) p = Some sh"
  shows "(\<forall>q shq. strict_prefix q p \<and> itemAt (roots t) q = Some shq
            \<longrightarrow> consistent (attrs (selectItem t p)) q shq)
       \<and> (\<forall>q shq. prefix p q \<and> itemAt (roots t) q = Some shq
              \<and> getChildrenItems False (attrs (selectItem t p)) q shq \<noteq> []
            \<longrightarrow> (selected (attrs (selectItem t p) q)
                   \<longleftrightarrow> list_all (\<lambda>c. selected (attrs (selectItem t p) c))
                         (getChildrenItems False (attrs (selectItem t p)) q shq)))
       \<and> (\<forall>q shq. \<not> prefix q p \<and> \<not> prefix p q
            \<longrightarrow> attrs (selectItem t p) q = attrs t q
                \<and> consistent (attrs (selectItem t p)) q shq = consistent (attrs t) q shq)
       \<and> roots (selectItem t p) = roots t \<and> selection (selectItem t p) = selection t"
proof -
  let ?\<sigma>2 = "toggleSelected (attrs t) p"
  let ?\<sigma>3 = "syncAncestors (roots t) ?\<sigma>2 p"
  let ?\<sigma>4 = "syncDescendants ?\<sigma>3 p sh"
  note eq = selectItem_multiple [OF assms]
  have anc: "consistent ?\<sigma>4 q shq" if "strict_prefix q p" "itemAt (roots t) q = Some shq" for q shq
  proof -
    have "consistent ?\<sigma>4 q shq = consistent ?\<sigma>3 q shq"
    proof (rule consistent_cong)
      show "?\<sigma>4 (q @ [i]) = ?\<sigma>3 (q @ [i])" for i
        by (rule syncDescendants_frame) (rule not_strict_prefix_child [OF that(1)])
      show "?\<sigma>4 q = ?\<sigma>3 q"
        using that(1) by (intro syncDescendants_frame) (auto dest!: prefix_length_less)
    qed
    with syncAncestors_consistent [OF assms(2) that] show ?thesis by simp
  qed
  have desc: "selected (?\<sigma>4 q) \<longleftrightarrow> list_all (\<lambda>c. selected (?\<sigma>4 c)) (getChildrenItems False ?\<sigma>4 q shq)"
    if "prefix p q" "itemAt (roots t) q = Some shq" "getChildrenItems False ?\<sigma>4 q shq \<noteq> []"
    for q shq
  proof -
    from that(1) obtain r where q: "q = p @ r" by (auto elim: prefixE)
    have n: "r = [] \<and> shq = sh \<or> itemAt (kids sh) r = Some shq"
    proof (cases "r = []")
      case True
      with q that(2) assms(2) show ?thesis by simp
    next
      case False
      from itemAt_append [OF assms(2) False] that(2) q show ?thesis by simp
    qed
    from syncDescendants_node [OF n, of ?\<sigma>3 p] that(3) q show ?thesis by simp
  qed
  have frame: "?\<sigma>4 q = attrs t q" if "\<not> prefix q p" "\<not> prefix p q" for q
  proof -
    have "?\<sigma>4 q = ?\<sigma>3 q" using that by (intro syncDescendants_frame) auto
    also have "\<dots> = ?\<sigma>2 q" using that by (intro syncAncestors_frame) auto
    also have "\<dots> = attrs t q" using that by (intro toggleSelected_other) auto
    finally show ?thesis .
  qed
  have out: "consistent ?\<sigma>4 q shq = consistent (attrs t) q shq"
    if "\<not> prefix q p" "\<not> prefix p q" for q shq
  proof (rule consistent_cong)
    show "?\<sigma>4 q = attrs t q" by (rule frame [OF that])
    show "?\<sigma>4 (q @ [i]) = attrs t (q @ [i])" for i
    proof (rule frame)
      show "\<not> prefix (q @ [i]) p" using that(1) by (auto dest: append_prefixD)
      show "\<not> prefix p (q @ [i])" using that by auto
    qed
  qed
  from anc desc frame out show ?thesis
    unfolding eq by blast
qed

theorem C3_witness:
  "selection c3_deep = Multiple
   \<and> itemAt (roots c3_deep) [0, 0] = Some (Node [Node [], Node []])
   \<and> strict_prefix [0] [0, 0::nat]
   \<and> itemAt (roots c3_deep) [0] = Some (Node [Node [Node [], Node []], Node []])
   \<and> consistent (attrs (selectItem c3_deep [0, 0])) [0] (Node [Node [Node [], Node []], Node []])
   \<and> prefix [0, 0] [0, 0::nat]
   \<and> getChildrenItems False (attrs (selectItem c3_deep [0, 0])) [0, 0] (Node [Node [], Node []]) \<noteq> []
   \<and> selected (attrs (selectItem c3_deep [0, 0]) [0, 0])
   \<and> list_all (\<lambda>c. selected (attrs (selectItem c3_deep [0, 0]) c))
        (getChildrenItems False (attrs (selectItem c3_deep [0, 0])) [0, 0] (Node [Node [], Node []]))
   \<and> \<not> prefix [0, 1] [0, 0::nat] \<and> \<not> prefix [0, 0] [0, 1::nat]
   \<and> attrs (selectItem c3_deep [0, 0]) [0, 1] = attrs c3_deep [0, 1]
   \<and> indeterminate (attrs (selectItem c3_deep [0, 0]) [0])
   \<and> \<not> selected (attrs (selectItem c3_deep [0, 0]) [0])"
proof -
  let ?A = "Node [Node [], Node []]"
  let ?R = "Node [?A, Node []]"
  let ?\<sigma> = "attrs (selectItem c3_deep [0, 0])"
  have h1: "selection c3_deep = Multiple" by (simp add: c3_deep_def)
  have h2: "itemAt (roots c3_deep) [0, 0] = Some ?A" by (simp add: c3_deep_def)
  have h3: "strict_prefix [0] [0, 0::nat]" by (simp add: strict_prefix_def)
  have h4: "itemAt (roots c3_deep) [0] = Some ?R" by (simp add: c3_deep_def)
  have h5: "prefix [0, 0] [0, 0::nat]" by simp
  have ev: "selected (?\<sigma> [0, 0]) \<and> indeterminate (?\<sigma> [0]) \<and> \<not> selected (?\<sigma> [0])
            \<and> \<not> disabled (?\<sigma> [0, 0, 0])"
    by (simp add: c3_deep_def item0_def selectItem_def syncTreeItems_def syncCheckboxes_def
          syncAncestors.simps parentItem_def getChildrenItems_def selectedItems_def
          treeItems_def Let_def)
  then have h6: "getChildrenItems False ?\<sigma> [0, 0] ?A \<noteq> []"
    by (simp add: getChildrenItems_def upt_conv_Cons)
  have h7: "\<not> prefix [0, 1] [0, 0::nat]" "\<not> prefix [0, 0] [0, 1::nat]" by simp_all
  note main = C3_selectItem_multiple [OF h1 h2]
  from main h3 h4 have a: "consistent ?\<sigma> [0] ?R" by blast
  from main h5 h2 h6 ev
  have b: "list_all (\<lambda>c. selected (?\<sigma> c)) (getChildrenItems False ?\<sigma> [0, 0] ?A)" by blast
  from main h7 have c: "?\<sigma> [0, 1] = attrs c3_deep [0, 1]" by blast
  from ev have e1: "selected (?\<sigma> [0, 0])" and e2: "indeterminate (?\<sigma> [0])"
    and e3: "\<not> selected (?\<sigma> [0])" by simp_all
  show ?thesis
    by (intro conjI h1 h2 h3 h4 a h5 h6 e1 b h7 c e2 e3)
qed

section \<open>Tree: selecting in single mode\<close>

lemma pathsOf_shape:
  "q \<in> set (pathsOf p sh) \<Longrightarrow> prefix p q"
  and pathsOfList_shape:
  "q \<in> set (pathsOfList p i ks) \<Longrightarrow> \<exists>j r. q = p @ j # r \<and> i \<le> j"
proof (induction p sh and p i ks arbitrary: q and q rule: pathsOf_pathsOfList.induct)
  case (1 p ks)
  from "1.prems" consider "q = p" | "q \<in> set (pathsOfList p 0 ks)" by auto
  then show ?case
  proof cases
    case 1
    then show ?thesis by simp
  next
    case 2
    then obtain j r where "q = p @ j # r \<and> 0 \<le> j" using "1.IH" by blast
    then show ?thesis by simp
  qed
next
  case (2 p i)
  then show ?case by simp
next
  case (3 p i k ks)
  from "3.prems" consider "q \<in> set (pathsOf (p @ [i]) k)" | "q \<in> set (pathsOfList p (Suc i) ks)"
    by auto
  then show ?case
  proof cases
    case 1
    then have "prefix (p @ [i]) q" by (rule "3.IH"(1))
    then obtain r where "q = (p @ [i]) @ r" by (auto elim: prefixE)
    then have "q = p @ i # r \<and> i \<le> i" by simp
    then show ?thesis by blast
  next
    case 2
    then obtain j r where "q = p @ j # r \<and> Suc i \<le> j" using "3.IH"(2) by blast
    then have "q = p @ j # r \<and> i \<le> j" by simp
    then show ?thesis by blast
  qed
qed

lemma distinct_pathsOf: "distinct (pathsOf p sh)"
  and distinct_pathsOfList: "distinct (pathsOfList p i ks)"
proof (induction p sh and p i ks rule: pathsOf_pathsOfList.induct)
  case (1 p ks)
  have "p \<notin> set (pathsOfList p 0 ks)"
  proof
    assume "p \<in> set (pathsOfList p 0 ks)"
    then obtain j r where "p = p @ j # r \<and> 0 \<le> j" using pathsOfList_shape by blast
    then show False by simp
  qed
  with 1 show ?case by simp
next
  case (2 p i)
  then show ?case by simp
next
  case (3 p i k ks)
  have "set (pathsOf (p @ [i]) k) \<inter> set (pathsOfList p (Suc i) ks) = {}"
  proof (rule ccontr)
    assume "set (pathsOf (p @ [i]) k) \<inter> set (pathsOfList p (Suc i) ks) \<noteq> {}"
    then obtain q where a: "q \<in> set (pathsOf (p @ [i]) k)"
      and b: "q \<in> set (pathsOfList p (Suc i) ks)" by auto
    from a have "prefix (p @ [i]) q" by (rule pathsOf_shape)
    then obtain r where q1: "q = p @ i # r" by (auto elim: prefixE)
    from b obtain j r' where q2: "q = p @ j # r' \<and> Suc i \<le> j" using pathsOfList_shape by blast
    from q1 q2 show False by simp
  qed
  with 3 show ?case by simp
qed

lemma distinct_treeItems: "distinct (treeItems t)"
  by (simp add: treeItems_def distinct_pathsOfList)

lemma fold_deselect:
  "fold (\<lambda>item \<sigma>. if item \<noteq> p then \<sigma>(item := (\<sigma> item)\<lparr>selected := False\<rparr>) else \<sigma>) xs \<sigma> q
     = (if q \<in> set xs \<and> q \<noteq> p then (\<sigma> q)\<lparr>selected := False\<rparr> else \<sigma> q)"
  by (induction xs arbitrary: \<sigma>) auto

lemma selectItem_single:
  assumes "selection t = Single"
  shows "attrs (selectItem t p) q
           = (if q = p then (attrs t p)\<lparr>selected := True\<rparr>
              else if q \<in> set (treeItems t) then (attrs t q)\<lparr>selected := False\<rparr>
              else attrs t q)"
    and "roots (selectItem t p) = roots t"
  using assms
  by (simp_all add: selectItem_def syncTreeItems_def Let_def fold_deselect treeItems_def)

lemma filter_only:
  assumes "distinct xs" and "p \<in> set xs" and "\<And>x. x \<in> set xs \<Longrightarrow> P x \<longleftrightarrow> x = p"
  shows "filter P xs = [p]"
proof -
  have "filter P xs = filter (\<lambda>x. x = p) xs"
    by (rule filter_cong) (simp_all add: assms(3))
  also from assms(1,2) have "\<dots> = [p]"
    by (induction xs) (auto simp: filter_empty_conv)
  finally show ?thesis .
qed

text \<open>
  C7: in single mode, after \<open>selectItem\<close> on an item of the tree the chosen item is
  selected, every other item of the tree is deselected, and the list of selected items
  is exactly the chosen item, so exactly one item is selected.
\<close>

theorem C7_selectItem_single:
  assumes "selection t = Single" and "p \<in> set (treeItems t)"
  shows "selected (attrs (selectItem t p) p)
       \<and> (\<forall>q \<in> set (treeItems t). q \<noteq> p \<longrightarrow> \<not> selected (attrs (selectItem t p) q))
       \<and> selectedItems (selectItem t p) = [p]
       \<and> length (selectedItems (selectItem t p)) = 1
       \<and> treeItems (selectItem t p) = treeItems t"
proof -
  note eq = selectItem_single [OF assms(1), of p]
  have ti: "treeItems (selectItem t p) = treeItems t"
    by (simp add: treeItems_def eq(2))
  have sel: "selected (attrs (selectItem t p) q) \<longleftrightarrow> q = p" if "q \<in> set (treeItems t)" for q
    using that by (simp add: eq(1))
  have "selectedItems (selectItem t p) = [p]"
    unfolding selectedItems_def ti
    by (rule filter_only [OF distinct_treeItems assms(2)]) (rule sel)
  with sel ti assms(2) show ?thesis by simp
qed

theorem C7_witness:
  "selection c7_tree = Single \<and> [1] \<in> set (treeItems c7_tree)
   \<and> [0, 0] \<in> set (treeItems c7_tree) \<and> selected (attrs c7_tree [0, 0])
   \<and> selected (attrs (selectItem c7_tree [1]) [1])
   \<and> \<not> selected (attrs (selectItem c7_tree [1]) [0, 0])
   \<and> selectedItems (selectItem c7_tree [1]) = [[1]]"
proof -
  have h1: "selection c7_tree = Single" by (simp add: c7_tree_def)
  have h2: "[1] \<in> set (treeItems c7_tree)" by (simp add: c7_tree_def treeItems_def)
  have h3: "[0, 0] \<in> set (treeItems c7_tree)" by (simp add: c7_tree_def treeItems_def)
  have h4: "selected (attrs c7_tree [0, 0])" by (simp add: c7_tree_def item0_def)
  have ne: "[0, 0] \<noteq> [1::nat]" by simp
  note main = C7_selectItem_single [OF h1 h2]
  from main have a: "selected (attrs (selectItem c7_tree [1]) [1])" by blast
  from main h3 ne have b: "\<not> selected (attrs (selectItem c7_tree [1]) [0, 0])" by blast
  from main have c: "selectedItems (selectItem c7_tree [1]) = [[1]]" by blast
  show ?thesis by (intro conjI h1 h2 h3 h4 a b c)
qed

section \<open>Tree: the focusable items\<close>





end
